theory Spec2Isabelle
  imports Main
begin

section \<open>Dispatcher: data model\<close>

text \<open>
  A dispatch token is a JavaScript string (\<^verbatim>\<open>export type DispatchToken = string\<close>).
\<close>

type_synonym token = string

text \<open>
  Every failure of the source is an \<^verbatim>\<open>invariant(...)\<close> violation or an exception thrown
  by a callback.  The constructors name the invariant that failed:
  \<^item> \<open>ReentrantDispatchError\<close>: "Cannot dispatch in the middle of a dispatch."
  \<^item> \<open>NotDispatchingError\<close>: "Must be invoked while dispatching."
  \<^item> \<open>InvalidTokenError id\<close>: "`id` does not map to a registered callback."
  \<^item> \<open>CircularDependencyError id\<close>: "Circular dependency detected while waiting for `id`."
  \<^item> \<open>NotCallableError id\<close>: the TypeError of \<^verbatim>\<open>this._callbacks[id](...)\<close> when the
    registry holds no function under \<open>id\<close>.
  \<^item> \<open>ApplicationError msg\<close>: an exception thrown by the body of a callback.
\<close>

datatype error =
    ReentrantDispatchError
  | NotDispatchingError
  | InvalidTokenError token
  | CircularDependencyError token
  | NotCallableError token
  | ApplicationError string
  | UndefinedReduceError

text \<open>
  A callback is a function of the payload.  What the dispatcher can see of its body is
  the sequence of calls it makes back into the dispatcher, and whether it throws; all
  other work of a callback is invisible to the dispatcher.  The body of a callback is
  therefore the list of these interactions, in program order, for the payload received.
  The argument is \<open>None\<close> when the callback is handed \<^verbatim>\<open>undefined\<close>.  A body can call
  \<^verbatim>\<open>waitFor\<close>, \<^verbatim>\<open>dispatch\<close>, \<^verbatim>\<open>register\<close> (with the callback to register) and
  \<^verbatim>\<open>unregister\<close>, it can throw, and it can run a part of itself under
  \<^verbatim>\<open>try { ... } catch (e) { ... }\<close>: \<open>TryCatch body handler\<close> runs \<open>body\<close>, and runs
  \<open>handler\<close> when \<open>body\<close> throws; what \<open>handler\<close> throws is thrown on.
\<close>

datatype 'p action =
    WaitFor "token list"
  | Dispatch 'p
  | Register "'p option \<Rightarrow> 'p action list"
  | Unregister token
  | Throw string
  | TryCatch "'p action list" "'p action list"

type_synonym 'p callback = "'p option \<Rightarrow> 'p action list"

text \<open>
  Observations.  The field \<open>log\<close> of the state below is not a field of the source; it
  records what happened, so that properties about invocations can be stated:
  \<open>Call tk p\<close> when the callback of \<open>tk\<close> is called with \<open>p\<close>, \<open>Ret tk\<close> when it has
  returned, \<open>Wait a b\<close> when the loop of a \<^verbatim>\<open>waitFor\<close> call made by the body of \<open>a\<close>
  reaches the token \<open>b\<close>.  The log is emptied when a dispatch starts: it holds
  the events of the current dispatch, or of the last one.
\<close>

datatype 'p event =
    Call token "'p option"
  | Ret token
  | Wait token token

text \<open>
  The fields of \<^verbatim>\<open>class Dispatcher\<close>.  \<^verbatim>\<open>_callbacks\<close> is a JavaScript object whose
  keys are enumerated by \<^verbatim>\<open>for ... in\<close> in insertion order, so it is an association
  list; \<^verbatim>\<open>_isPending\<close> and \<^verbatim>\<open>_isHandled\<close> are only read by key, so they are maps.
  \<^verbatim>\<open>_lastID\<close> is a JavaScript number, a double: it starts at 1 and only \<^verbatim>\<open>++\<close>
  changes it, so it is a natural number up to \<open>2^53\<close>, where it stays (see
  \<open>increment\<close> below).  \<^verbatim>\<open>_pendingPayload\<close> is \<open>None\<close> when the property is absent.
  The field \<open>minted\<close> is not a field of the source either: it lists the tokens that
  \<^verbatim>\<open>register\<close> has returned, oldest first.
\<close>

record 'p dispatcher =
  callbacks :: "(token \<times> 'p callback) list"
  isDispatching :: bool
  isHandled :: "token \<rightharpoonup> bool"
  isPending :: "token \<rightharpoonup> bool"
  lastID :: nat
  pendingPayload :: "'p option"
  log :: "'p event list"
  minted :: "token list"

datatype outcome = Returned | Threw error | Exhausted

subsection \<open>JavaScript objects as dictionaries\<close>

text \<open>
  The three dictionaries are created by \<^verbatim>\<open>{}\<close>, so a read \<^verbatim>\<open>obj[id]\<close> of a key that
  is not an own property finds the property of that name on \<^verbatim>\<open>Object.prototype\<close>, if
  there is one.  All of these inherited values are functions or objects, hence truthy.
\<close>

definition objectPrototype :: "string list" where
  "objectPrototype =
     [''constructor'', ''__defineGetter__'', ''__defineSetter__'', ''hasOwnProperty'',
      ''__lookupGetter__'', ''__lookupSetter__'', ''isPrototypeOf'',
      ''propertyIsEnumerable'', ''toString'', ''valueOf'', ''__proto__'',
      ''toLocaleString'']"

definition inherited :: "string \<Rightarrow> bool" where
  "inherited k = (k \<in> set objectPrototype)"

text \<open>Truthiness of \<^verbatim>\<open>flags[id]\<close> for \<^verbatim>\<open>_isPending\<close> and \<^verbatim>\<open>_isHandled\<close>.\<close>

definition truthy :: "(token \<rightharpoonup> bool) \<Rightarrow> token \<Rightarrow> bool" where
  "truthy m k = (case m k of Some b \<Rightarrow> b | None \<Rightarrow> inherited k)"

definition keys :: "'p dispatcher \<Rightarrow> token list" where
  "keys s = map fst (callbacks s)"

text \<open>Truthiness of \<^verbatim>\<open>this._callbacks[id]\<close>: functions are truthy.\<close>

definition hasCallback :: "'p dispatcher \<Rightarrow> token \<Rightarrow> bool" where
  "hasCallback s k = (k \<in> set (keys s) \<or> inherited k)"

text \<open>\<^verbatim>\<open>obj[k] = v\<close>: an existing key keeps its place, a new key goes last.\<close>

fun put :: "token \<Rightarrow> 'v \<Rightarrow> (token \<times> 'v) list \<Rightarrow> (token \<times> 'v) list" where
  "put k v [] = [(k, v)]"
| "put k v ((k', v') # kvs) = (if k' = k then (k, v) # kvs else (k', v') # put k v kvs)"

text \<open>\<^verbatim>\<open>delete obj[k]\<close> removes the own property, if any.\<close>

definition remove :: "token \<Rightarrow> (token \<times> 'v) list \<Rightarrow> (token \<times> 'v) list" where
  "remove k kvs = filter (\<lambda>kv. fst kv \<noteq> k) kvs"

subsection \<open>Tokens\<close>

text \<open>
  \<^verbatim>\<open>_prefix + this._lastID++\<close>: the number is converted to its decimal string.
\<close>

definition digit :: "nat \<Rightarrow> char" where
  "digit d = ''0123456789'' ! d"

fun decimal :: "nat \<Rightarrow> string" where
  "decimal n = (if n < 10 then [digit n] else decimal (n div 10) @ [digit (n mod 10)])"

definition prefix_ID :: string where
  "prefix_ID = ''ID_''"

definition mkToken :: "nat \<Rightarrow> token" where
  "mkToken n = prefix_ID @ decimal n"

section \<open>Dispatcher: operations\<close>

text \<open>The constructor.\<close>

definition new :: "'p dispatcher" where
  "new = \<lparr> callbacks = [], isDispatching = False, isHandled = Map.empty,
           isPending = Map.empty, lastID = 1, pendingPayload = None, log = [],
           minted = [] \<rparr>"

text \<open>
  \<^verbatim>\<open>this._lastID++\<close> on a double: below \<open>2^53\<close> the sum is exact; \<open>2^53 + 1\<close> is not
  a double and rounds back to \<open>2^53\<close>, so from there on the counter does not move.
\<close>

definition increment :: "nat \<Rightarrow> nat" where
  "increment n = (if n < 2 ^ 53 then n + 1 else n)"

definition register :: "'p dispatcher \<Rightarrow> 'p callback \<Rightarrow> token \<times> 'p dispatcher" where
  "register s callback =
     (let tk = mkToken (lastID s);
          s1 = s\<lparr>lastID := increment (lastID s)\<rparr>
      in (tk, s1\<lparr>callbacks := put tk callback (callbacks s1), minted := minted s1 @ [tk]\<rparr>))"

definition unregister :: "'p dispatcher \<Rightarrow> token \<Rightarrow> outcome \<times> 'p dispatcher" where
  "unregister s tk =
     (if \<not> hasCallback s tk then (Threw (InvalidTokenError tk), s)
      else (Returned, s\<lparr>callbacks := remove tk (callbacks s)\<rparr>))"

fun resetFlags :: "token list \<Rightarrow> 'p dispatcher \<Rightarrow> 'p dispatcher" where
  "resetFlags [] s = s"
| "resetFlags (tk # ids) s =
     resetFlags ids (s\<lparr>isPending := (isPending s)(tk \<mapsto> False),
                       isHandled := (isHandled s)(tk \<mapsto> False)\<rparr>)"

definition startDispatching :: "'p dispatcher \<Rightarrow> 'p \<Rightarrow> 'p dispatcher" where
  "startDispatching s payload =
     (resetFlags (keys s) s)\<lparr>pendingPayload := Some payload, isDispatching := True,
                               log := []\<rparr>"

definition stopDispatching :: "'p dispatcher \<Rightarrow> 'p dispatcher" where
  "stopDispatching s = s\<lparr>pendingPayload := None, isDispatching := False\<rparr>"

text \<open>
  \<^verbatim>\<open>_invokeCallback\<close>, \<^verbatim>\<open>waitFor\<close> and \<^verbatim>\<open>dispatch\<close> call each other through the
  callbacks.  \<open>runBody\<close> runs the body of a callback, action by action, and stops
  at the first one that throws.  The argument \<open>self\<close> is the token of the callback whose
  body is running; it is only written to the log.  The first argument bounds the
  depth of nested callback invocations; \<open>Exhausted\<close> is the result when the bound is
  reached.  The \<^verbatim>\<open>for ... in\<close> loop of
  \<^verbatim>\<open>dispatch\<close> visits the keys present when it starts, skipping a key that has been
  deleted before its turn; a key added during the loop is not visited (the
  specification: "iteration is over a structure captured at start").
  \<^verbatim>\<open>_invokeCallback\<close> is internal: its callers pass a key of
  the registry, or a token that passed the check of \<^verbatim>\<open>waitFor\<close>; where the registry has
  no function of its own under the token, the call of \<^verbatim>\<open>this._callbacks[id]\<close> is
  modelled as the TypeError of calling \<^verbatim>\<open>undefined\<close>.
\<close>

function invokeCallback :: "nat \<Rightarrow> token \<Rightarrow> 'p dispatcher \<Rightarrow> outcome \<times> 'p dispatcher"
  and runBody :: "nat \<Rightarrow> token \<Rightarrow> 'p action list \<Rightarrow> 'p dispatcher \<Rightarrow> outcome \<times> 'p dispatcher"
  and waitFor :: "nat \<Rightarrow> token \<Rightarrow> token list \<Rightarrow> 'p dispatcher \<Rightarrow> outcome \<times> 'p dispatcher"
  and waitFor_loop :: "nat \<Rightarrow> token \<Rightarrow> token list \<Rightarrow> 'p dispatcher \<Rightarrow> outcome \<times> 'p dispatcher"
  and dispatch_n :: "nat \<Rightarrow> 'p dispatcher \<Rightarrow> 'p \<Rightarrow> outcome \<times> 'p dispatcher"
  and dispatch_loop :: "nat \<Rightarrow> token list \<Rightarrow> 'p dispatcher \<Rightarrow> outcome \<times> 'p dispatcher"
where
  "invokeCallback 0 tk s = (Exhausted, s)"
| "invokeCallback (Suc n) tk s =
     (let s1 = s\<lparr>isPending := (isPending s)(tk \<mapsto> True)\<rparr> in
      case map_of (callbacks s1) tk of
        None \<Rightarrow> (Threw (NotCallableError tk), s1)
      | Some callback \<Rightarrow>
          (case runBody n tk (callback (pendingPayload s1))
                  (s1\<lparr>log := log s1 @ [Call tk (pendingPayload s1)]\<rparr>) of
             (Returned, s2) \<Rightarrow>
               (Returned, s2\<lparr>isHandled := (isHandled s2)(tk \<mapsto> True),
                              log := log s2 @ [Ret tk]\<rparr>)
           | (r, s2) \<Rightarrow> (r, s2)))"
| "runBody n self [] s = (Returned, s)"
| "runBody n self (WaitFor ids # rest) s =
     (case waitFor n self ids s of
        (Returned, s') \<Rightarrow> runBody n self rest s'
      | (r, s') \<Rightarrow> (r, s'))"
| "runBody n self (Dispatch payload # rest) s =
     (case dispatch_n n s payload of
        (Returned, s') \<Rightarrow> runBody n self rest s'
      | (r, s') \<Rightarrow> (r, s'))"
| "runBody n self (Register callback # rest) s =
     runBody n self rest (snd (register s callback))"
| "runBody n self (Unregister tk # rest) s =
     (case unregister s tk of
        (Returned, s') \<Rightarrow> runBody n self rest s'
      | (r, s') \<Rightarrow> (r, s'))"
| "runBody n self (Throw msg # rest) s = (Threw (ApplicationError msg), s)"
| "runBody n self (TryCatch body handler # rest) s =
     (case runBody n self body s of
        (Returned, s') \<Rightarrow> runBody n self rest s'
      | (Threw e, s') \<Rightarrow>
          (case runBody n self handler s' of
             (Returned, s'') \<Rightarrow> runBody n self rest s''
           | (r, s'') \<Rightarrow> (r, s''))
      | (Exhausted, s') \<Rightarrow> (Exhausted, s'))"
| "waitFor n self ids s =
     (if \<not> isDispatching s then (Threw NotDispatchingError, s)
      else waitFor_loop n self ids s)"
| "waitFor_loop n self [] s = (Returned, s)"
| "waitFor_loop n self (tk # ids) s =
     (let s0 = s\<lparr>log := log s @ [Wait self tk]\<rparr> in
      if truthy (isPending s0) tk then
        (if \<not> truthy (isHandled s0) tk then (Threw (CircularDependencyError tk), s0)
         else waitFor_loop n self ids s0)
      else if \<not> hasCallback s0 tk then (Threw (InvalidTokenError tk), s0)
      else (case invokeCallback n tk s0 of
              (Returned, s') \<Rightarrow> waitFor_loop n self ids s'
            | (r, s') \<Rightarrow> (r, s')))"
| "dispatch_n n s payload =
     (if isDispatching s then (Threw ReentrantDispatchError, s)
      else (case dispatch_loop n (keys (startDispatching s payload))
                   (startDispatching s payload) of
              (r, s') \<Rightarrow> (r, stopDispatching s')))"
| "dispatch_loop n [] s = (Returned, s)"
| "dispatch_loop n (tk # ids) s =
     (if tk \<notin> set (keys s) then dispatch_loop n ids s
      else if truthy (isPending s) tk then dispatch_loop n ids s
      else (case invokeCallback n tk s of
              (Returned, s') \<Rightarrow> dispatch_loop n ids s'
            | (r, s') \<Rightarrow> (r, s')))"
  by pat_completeness auto

termination
  by (relation "inv_image (less_than <*lex*> less_than <*lex*> less_than)
        (case_sum
          (case_sum (\<lambda>(n, tk, s). (n, 0::nat, 0::nat))
            (case_sum (\<lambda>(n, self, acts, s). (n, 3, size_list size acts))
                      (\<lambda>(n, self, ids, s). (n, 2, 0))))
          (case_sum (\<lambda>(n, self, ids, s). (n, 1, length ids))
            (case_sum (\<lambda>(n, s, p). (n, 2, 0))
                      (\<lambda>(n, ids, s). (n, 1, length ids)))))")
     auto

text \<open>
  The number of \<^verbatim>\<open>register\<close> calls that running a body can make, counting those of
  the callbacks it registers, when every callback receives the payload \<open>pp\<close>.
\<close>

primrec weight :: "'p option \<Rightarrow> 'p action \<Rightarrow> nat" where
  "weight pp (WaitFor ids) = 0"
| "weight pp (Dispatch payload) = 0"
| "weight pp (Register callback) = Suc (sum_list (map (weight pp) (callback pp)))"
| "weight pp (Unregister tk) = 0"
| "weight pp (Throw msg) = 0"
| "weight pp (TryCatch body handler) =
     sum_list (map (weight pp) body) + sum_list (map (weight pp) handler)"

text \<open>
  A bound on the number of callbacks that can still be invoked in the current dispatch:
  the registered callbacks that are not pending, and those they can register.
\<close>

definition pot :: "'p dispatcher \<Rightarrow> nat" where
  "pot s =
     sum_list (map (\<lambda>kv. Suc (sum_list (map (weight (pendingPayload s))
                                           (snd kv (pendingPayload s)))))
                   (filter (\<lambda>kv. \<not> truthy (isPending s) (fst kv)) (callbacks s)))"

text \<open>
  \<^verbatim>\<open>dispatch\<close> as the application calls it.  A nested invocation marks one more
  token pending, so the depth of nesting never exceeds the number of callbacks that are
  registered or can be registered during the dispatch (theorem
  \<open>dispatch_not_Exhausted\<close>).
\<close>

definition dispatch :: "'p dispatcher \<Rightarrow> 'p \<Rightarrow> outcome \<times> 'p dispatcher" where
  "dispatch s payload = dispatch_n (Suc (pot (startDispatching s payload))) s payload"

subsection \<open>Sequences of calls by the application\<close>

text \<open>
  The application calls \<^verbatim>\<open>register\<close>, \<^verbatim>\<open>unregister\<close> and \<^verbatim>\<open>dispatch\<close> one after
  the other; a call that throws leaves the dispatcher as it was at the throw.  \<open>exec\<close>
  runs such a sequence and collects the tokens returned by \<^verbatim>\<open>register\<close>.
\<close>

datatype 'p call = CallRegister "'p callback" | CallUnregister token | CallDispatch 'p

fun exec :: "'p call list \<Rightarrow> 'p dispatcher \<Rightarrow> token list \<times> 'p dispatcher" where
  "exec [] s = ([], s)"
| "exec (CallRegister cb # cs) s =
     (case register s cb of (tk, s') \<Rightarrow>
        (case exec cs s' of (tks, s'') \<Rightarrow> (tk # tks, s'')))"
| "exec (CallUnregister tk # cs) s = exec cs (snd (unregister s tk))"
| "exec (CallDispatch p # cs) s = exec cs (snd (dispatch s p))"

subsection \<open>What the log shows\<close>

fun calls :: "'p event list \<Rightarrow> (token \<times> 'p option) list" where
  "calls [] = []"
| "calls (Call tk p # es) = (tk, p) # calls es"
| "calls (Ret tk # es) = calls es"
| "calls (Wait a b # es) = calls es"

definition callToks :: "'p event list \<Rightarrow> token list" where
  "callToks es = map fst (calls es)"

fun retToks :: "'p event list \<Rightarrow> token list" where
  "retToks [] = []"
| "retToks (Call tk p # es) = retToks es"
| "retToks (Ret tk # es) = tk # retToks es"
| "retToks (Wait a b # es) = retToks es"

definition waits :: "'p event list \<Rightarrow> (token \<times> token) set" where
  "waits es = {(a, b). Wait a b \<in> set es}"

section \<open>FluxStore and FluxReduceStore\<close>

text \<open>
  The fields of a store that \<^verbatim>\<open>__invokeOnDispatch\<close> touches: \<^verbatim>\<open>_state\<close> (\<open>None\<close> is
  \<^verbatim>\<open>undefined\<close>), \<^verbatim>\<open>__changed\<close>, and the number of times the emitter has emitted
  the change event.  \<^verbatim>\<open>reduce\<close> and \<^verbatim>\<open>areEqual\<close> are methods a subclass overrides,
  so they are parameters; \<open>dispatching\<close> is what \<^verbatim>\<open>this.__dispatcher.isDispatching()\<close>
  returns.  \<^verbatim>\<open>isDispatching()\<close> itself returns the field \<open>isDispatching\<close>.
\<close>

record 's store =
  state :: "'s option"
  changed :: bool
  emitted :: nat

definition emitChange :: "bool \<Rightarrow> 's store \<Rightarrow> outcome \<times> 's store" where
  "emitChange dispatching st =
     (if \<not> dispatching then (Threw NotDispatchingError, st)
      else (Returned, st\<lparr>changed := True\<rparr>))"

definition areEqual :: "'s option \<Rightarrow> 's option \<Rightarrow> bool" where
  "areEqual one two = (one = two)"

definition invokeOnDispatch ::
  "('s option \<Rightarrow> 'a \<Rightarrow> 's option) \<Rightarrow> ('s option \<Rightarrow> 's option \<Rightarrow> bool) \<Rightarrow> bool \<Rightarrow>
   's store \<Rightarrow> 'a \<Rightarrow> outcome \<times> 's store" where
  "invokeOnDispatch reduce eq dispatching st action =
     (let st1 = st\<lparr>changed := False\<rparr>;
          startingState = state st1;
          endingState = reduce startingState action
      in if endingState = None then (Threw UndefinedReduceError, st1)
         else (case (if \<not> eq startingState endingState
                     then emitChange dispatching (st1\<lparr>state := endingState\<rparr>)
                     else (Returned, st1)) of
                 (Returned, st2) \<Rightarrow>
                   (Returned, if changed st2 then st2\<lparr>emitted := emitted st2 + 1\<rparr> else st2)
               | (r, st2) \<Rightarrow> (r, st2)))"

section \<open>Example dispatchers and auxiliary notions\<close>

text \<open>
  Between two states: the counter \<^verbatim>\<open>_lastID\<close> has not gone down, and if it is still
  below \<open>2^53\<close> the tokens minted in between are those of the numbers it went through.
\<close>

definition mint :: "'p dispatcher \<Rightarrow> 'p dispatcher \<Rightarrow> bool" where
  "mint a b =
     (lastID a \<le> lastID b \<and>
      (lastID b < 2 ^ 53 \<longrightarrow> minted b = minted a @ map mkToken [lastID a ..< lastID b]))"

text \<open>
  \<open>saturated_example\<close>: a dispatcher whose counter \<^verbatim>\<open>_lastID\<close> has reached \<open>2^53\<close>.
  \<open>nested_register_example\<close>: a callback is registered, a payload is dispatched, during
  which the callback registers a second callback, and a third callback is registered.
\<close>

definition saturated_example :: "unit dispatcher" where
  "saturated_example = new\<lparr>lastID := 2 ^ 53\<rparr>"

definition nested_register_example :: "unit call list" where
  "nested_register_example =
     [CallRegister (\<lambda>_. [Register (\<lambda>_. [])]), CallDispatch (), CallRegister (\<lambda>_. [])]"

text \<open>
  \<open>within n w s rs\<close>: a run that started in \<open>s\<close> with depth bound \<open>n\<close> and may register
  callbacks of total weight \<open>w\<close> ended in \<open>rs\<close> still dispatching the same payload,
  with the potential grown by at most \<open>w\<close>, and not by reaching the depth bound if the
  bound exceeds the potential and \<open>w\<close>.
\<close>

definition within :: "nat \<Rightarrow> nat \<Rightarrow> 'p dispatcher \<Rightarrow> outcome \<times> 'p dispatcher \<Rightarrow> bool" where
  "within n w s rs =
     (pendingPayload (snd rs) = pendingPayload s \<and> isDispatching (snd rs)
      \<and> pot (snd rs) \<le> pot s + w
      \<and> (pot s + w < n \<longrightarrow> fst rs \<noteq> Exhausted))"

text \<open>
  \<open>stale_example\<close>: one callback is registered, a payload is dispatched, the callback
  is unregistered.  \<open>throwing_example\<close>: one registered callback, whose body throws.
\<close>

definition stale_example :: "unit dispatcher" where
  "stale_example =
     (case register new (\<lambda>_. []) of (tk, s1) \<Rightarrow>
        snd (unregister (snd (dispatch s1 ())) tk))"

definition throwing_example :: "unit dispatcher" where
  "throwing_example = snd (register new (\<lambda>_. [Throw ''boom'']))"

text \<open>
  Between two states of one dispatch: no entry of \<^verbatim>\<open>_isPending\<close> or \<^verbatim>\<open>_isHandled\<close> is
  removed.
\<close>

definition entries_rel :: "'p dispatcher \<Rightarrow> 'p dispatcher \<Rightarrow> bool" where
  "entries_rel a b = (dom (isPending a) \<subseteq> dom (isPending b)
      \<and> dom (isHandled a) \<subseteq> dom (isHandled b))"

text \<open>
  \<open>late_example\<close>: one registered callback, whose body registers another callback.
  \<open>reused_example\<close>: \<open>stale_example\<close> with a second callback registered.
\<close>

definition late_example :: "unit dispatcher" where
  "late_example = snd (register new (\<lambda>_. [Register (\<lambda>_. [])]))"

definition reused_example :: "unit dispatcher" where
  "reused_example = snd (register stale_example (\<lambda>_. [Register (\<lambda>_. [])]))"

text \<open>
  Between two states of one dispatch: a token that is pending stays pending, and its
  \<^verbatim>\<open>_isHandled\<close> flag does not change.
\<close>

definition frozen :: "'p dispatcher \<Rightarrow> 'p dispatcher \<Rightarrow> bool" where
  "frozen a b =
     (\<forall>k. (isPending a k = Some True \<longrightarrow> isPending b k = Some True) \<and>
          (truthy (isPending a) k \<longrightarrow>
             truthy (isPending b) k \<and> truthy (isHandled b) k = truthy (isHandled a) k))"

text \<open>
  \<open>shared_example\<close>: three callbacks; the first and the third wait for the second.
\<close>

definition shared_example :: "unit dispatcher" where
  "shared_example =
     snd (register (snd (register (snd (register new (\<lambda>_. [WaitFor [''ID_2'']])))
                                  (\<lambda>_. [])))
                   (\<lambda>_. [WaitFor [''ID_2'']]))"

text \<open>
  Between two states of one dispatch: the log grows, the callbacks called in between
  are pairwise different, were not pending before and are pending after, and pending
  tokens stay pending.
\<close>

definition once :: "'p dispatcher \<Rightarrow> 'p dispatcher \<Rightarrow> bool" where
  "once a b =
     (\<exists>l. log b = log a @ l \<and> distinct (callToks l) \<and>
          (\<forall>k \<in> set (callToks l). \<not> truthy (isPending a) k \<and> truthy (isPending b) k) \<and>
          (\<forall>k. truthy (isPending a) k \<longrightarrow> truthy (isPending b) k))"







text \<open>
  \<open>cycle_example\<close>: two callbacks, each waits for the other.  \<open>catch_example\<close>: the
  same, but the second callback waits inside \<^verbatim>\<open>try { ... } catch (e) { }\<close>.
\<close>

definition cycle_example :: "unit dispatcher" where
  "cycle_example =
     snd (register (snd (register new (\<lambda>_. [WaitFor [''ID_2'']]))) (\<lambda>_. [WaitFor [''ID_1'']]))"

definition catch_example :: "unit dispatcher" where
  "catch_example =
     snd (register (snd (register new (\<lambda>_. [WaitFor [''ID_2'']])))
                   (\<lambda>_. [TryCatch [WaitFor [''ID_1'']] []]))"

text \<open>
  An action that contains no \<^verbatim>\<open>try\<close> block, and registers only callbacks whose body,
  for the payload \<open>pp\<close>, is made of such actions; \<open>nocatching\<close>: the body of every
  registered callback, for the payload being dispatched, is made of such actions.
\<close>

primrec nocatch :: "'p option \<Rightarrow> 'p action \<Rightarrow> bool" where
  "nocatch pp (WaitFor ids) = True"
| "nocatch pp (Dispatch payload) = True"
| "nocatch pp (Register callback) = list_all (\<lambda>b. b) (map (nocatch pp) (callback pp))"
| "nocatch pp (Unregister tk) = True"
| "nocatch pp (Throw msg) = True"
| "nocatch pp (TryCatch body handler) = False"

definition nocatching :: "'p dispatcher \<Rightarrow> bool" where
  "nocatching s =
     list_all (\<lambda>kv. list_all (nocatch (pendingPayload s)) (snd kv (pendingPayload s)))
       (callbacks s)"

text \<open>
  Every token that reads as handled reads as pending.  \<^verbatim>\<open>_invokeCallback\<close> sets
  \<^verbatim>\<open>_isPending\<close> before \<^verbatim>\<open>_isHandled\<close> and \<^verbatim>\<open>_startDispatching\<close> clears both, so
  this holds in every state that a new dispatcher can reach (lemma
  \<open>consistent_exec\<close>).
\<close>

definition consistent :: "'p dispatcher \<Rightarrow> bool" where
  "consistent s = (\<forall>k. truthy (isHandled s) k \<longrightarrow> truthy (isPending s) k)"

text \<open>
  The notions below describe the log of a dispatch.  \<open>pos xs x\<close> is the index of the
  first \<open>x\<close> in \<open>xs\<close>; \<open>opens s\<close> are the tokens whose callback has been called and has
  not returned; \<open>linked\<close> ties the log to the flags; \<open>edge_ok\<close> says of one logged
  \<open>Wait a b\<close> that \<open>a\<close> was called and that \<open>b\<close> returned before \<open>a\<close> did, or is a
  pending token that was not called in this dispatch, or was called after \<open>a\<close> while
  both are open (or is the token in \<open>X\<close> about to be called); \<open>cert\<close> is the part of
  this that depends on the log only, and excludes a cycle of waits; \<open>post\<close> is what
  holds after a step of the evaluation, by outcome.
\<close>

definition pos :: "token list \<Rightarrow> token \<Rightarrow> nat" where
  "pos xs x = length (takeWhile (\<lambda>y. y \<noteq> x) xs)"

definition opens :: "'p dispatcher \<Rightarrow> token set" where
  "opens s = set (callToks (log s)) - set (retToks (log s))"

definition linked :: "'p dispatcher \<Rightarrow> bool" where
  "linked s =
     (distinct (callToks (log s)) \<and>
      (\<forall>k \<in> set (callToks (log s)). truthy (isPending s) k) \<and>
      set (retToks (log s)) \<subseteq> set (callToks (log s)) \<and>
      (\<forall>k \<in> set (retToks (log s)). truthy (isHandled s) k) \<and>
      (\<forall>k \<in> opens s. \<not> truthy (isHandled s) k) \<and>
      consistent s)"

definition edge_ok :: "token set \<Rightarrow> 'p dispatcher \<Rightarrow> token \<Rightarrow> token \<Rightarrow> bool" where
  "edge_ok X s a b =
     (a \<in> set (callToks (log s)) \<and>
      (if a \<in> set (retToks (log s))
       then (b \<in> set (retToks (log s)) \<and> pos (retToks (log s)) b < pos (retToks (log s)) a)
            \<or> (b \<notin> set (callToks (log s)) \<and> truthy (isPending s) b)
       else b \<in> set (retToks (log s))
            \<or> (b \<notin> set (callToks (log s)) \<and> truthy (isPending s) b)
            \<or> (b \<in> opens s \<and> pos (callToks (log s)) a < pos (callToks (log s)) b)
            \<or> (b \<in> X \<and> b \<notin> set (callToks (log s)))))"

definition Inv :: "token set \<Rightarrow> 'p dispatcher \<Rightarrow> bool" where
  "Inv X s = (linked s \<and> nocatching s \<and> (\<forall>(a, b) \<in> waits (log s). edge_ok X s a b))"

definition cert :: "'p event list \<Rightarrow> bool" where
  "cert l =
     (set (retToks l) \<subseteq> set (callToks l) \<and>
      (\<forall>(a, b) \<in> waits l.
         a \<in> set (callToks l) \<and>
         (if a \<in> set (retToks l)
          then b \<notin> set (callToks l) \<or> (b \<in> set (retToks l) \<and> pos (retToks l) b < pos (retToks l) a)
          else b \<notin> set (callToks l) \<or> b \<in> set (retToks l)
               \<or> pos (callToks l) a < pos (callToks l) b)))"

definition post :: "'p dispatcher \<Rightarrow> outcome \<Rightarrow> 'p dispatcher \<Rightarrow> bool" where
  "post s r s' =
     (case r of
        Returned \<Rightarrow> Inv {} s' \<and> opens s' = opens s
      | Threw e \<Rightarrow>
          (case e of
             CircularDependencyError x \<Rightarrow>
               truthy (isPending s') x \<and> \<not> truthy (isHandled s') x \<and>
               (\<exists>y l0. log s' = l0 @ [Wait y x] \<and> cert l0 \<and> y \<in> set (callToks l0) \<and>
                        (\<forall>k \<in> set (retToks l0). truthy (isHandled s') k))
           | _ \<Rightarrow> cert (log s'))
      | Exhausted \<Rightarrow> True)"

text \<open>
  Between two states: pending tokens stay pending, and if every handled token was
  pending before, this is so after.
\<close>

definition keeps :: "'p dispatcher \<Rightarrow> 'p dispatcher \<Rightarrow> bool" where
  "keeps a b =
     ((\<forall>k. truthy (isPending a) k \<longrightarrow> truthy (isPending b) k)
      \<and> (consistent a \<longrightarrow> consistent b))"

text \<open>
  The keys of the registry are pairwise different tokens minted from numbers below
  \<^verbatim>\<open>_lastID\<close>; \<open>grows\<close>: this is kept between two states, as long as \<^verbatim>\<open>_lastID\<close> is
  below \<open>2^53\<close>.
\<close>

definition minted_keys :: "'p dispatcher \<Rightarrow> bool" where
  "minted_keys s =
     (distinct (keys s) \<and> (\<forall>tk \<in> set (keys s). \<exists>n<lastID s. tk = mkToken n))"

definition grows :: "'p dispatcher \<Rightarrow> 'p dispatcher \<Rightarrow> bool" where
  "grows a b =
     (lastID a \<le> lastID b \<and> (minted_keys a \<and> lastID b < 2 ^ 53 \<longrightarrow> minted_keys b))"


section \<open>A proof rule for the evaluation\<close>

text \<open>
  A relation between the state before and after that is reflexive, transitive and holds
  across each elementary step of a dispatch holds across every function of the
  evaluation started while dispatching.
\<close>

lemmas eval_induct = invokeCallback_runBody_waitFor_waitFor_loop_dispatch_n_dispatch_loop.induct

lemma eval_frame:
  fixes Q :: "'p dispatcher \<Rightarrow> 'p dispatcher \<Rightarrow> bool"
  assumes refl: "\<And>s. Q s s"
    and trans: "\<And>a b c. Q a b \<Longrightarrow> Q b c \<Longrightarrow> Q a c"
    and call: "\<And>s tk. isDispatching s \<Longrightarrow> \<not> truthy (isPending s) tk \<Longrightarrow>
                 Q s (s\<lparr>isPending := (isPending s)(tk \<mapsto> True),
                        log := log s @ [Call tk (pendingPayload s)]\<rparr>)"
    and ret: "\<And>s tk cb s2. isDispatching s \<Longrightarrow> \<not> truthy (isPending s) tk \<Longrightarrow>
                 map_of (callbacks s) tk = Some cb \<Longrightarrow>
                 Q (s\<lparr>isPending := (isPending s)(tk \<mapsto> True),
                      log := log s @ [Call tk (pendingPayload s)]\<rparr>) s2 \<Longrightarrow>
                 isDispatching s2 \<Longrightarrow>
                 Q s (s2\<lparr>isHandled := (isHandled s2)(tk \<mapsto> True), log := log s2 @ [Ret tk]\<rparr>)"
    and nocall: "\<And>s tk. isDispatching s \<Longrightarrow> \<not> truthy (isPending s) tk \<Longrightarrow>
                 map_of (callbacks s) tk = None \<Longrightarrow>
                 Q s (s\<lparr>isPending := (isPending s)(tk \<mapsto> True)\<rparr>)"
    and waitlog: "\<And>s self tk. isDispatching s \<Longrightarrow> Q s (s\<lparr>log := log s @ [Wait self tk]\<rparr>)"
    and unreg: "\<And>s tk. isDispatching s \<Longrightarrow> hasCallback s tk \<Longrightarrow>
                 Q s (s\<lparr>callbacks := remove tk (callbacks s)\<rparr>)"
    and reg: "\<And>s cb. isDispatching s \<Longrightarrow> Q s (snd (register s cb))"
  shows "isDispatching s \<Longrightarrow> \<not> truthy (isPending s) tk \<Longrightarrow>
           Q s (snd (invokeCallback n tk s)) \<and> isDispatching (snd (invokeCallback n tk s))"
    and "isDispatching s \<Longrightarrow>
           Q s (snd (runBody n self acts s)) \<and> isDispatching (snd (runBody n self acts s))"
    and "isDispatching s \<Longrightarrow>
           Q s (snd (waitFor n self ids s)) \<and> isDispatching (snd (waitFor n self ids s))"
    and "isDispatching s \<Longrightarrow>
           Q s (snd (waitFor_loop n self ids s)) \<and> isDispatching (snd (waitFor_loop n self ids s))"
    and "isDispatching s \<Longrightarrow>
           Q s (snd (dispatch_n n s p)) \<and> isDispatching (snd (dispatch_n n s p))"
    and "isDispatching s \<Longrightarrow>
           Q s (snd (dispatch_loop n ids s)) \<and> isDispatching (snd (dispatch_loop n ids s))"
proof (induction n tk s and n self acts s and n self ids s and n self ids s and n s p and n ids s
       rule: eval_induct)
  case (1 tk s)
  then show ?case by (simp add: refl)
next
  case (2 n tk s)
  let ?s1 = "s\<lparr>isPending := (isPending s)(tk \<mapsto> True)\<rparr>"
  show ?case
  proof (cases "map_of (callbacks s) tk")
    case None
    then show ?thesis using nocall[of s tk] 2 by simp
  next
    case (Some cb)
    let ?s2 = "s\<lparr>isPending := (isPending s)(tk \<mapsto> True),
                  log := log s @ [Call tk (pendingPayload s)]\<rparr>"
    have q2: "Q s ?s2" using call 2 by simp
    obtain r s3 where r: "runBody n tk (cb (pendingPayload s)) ?s2 = (r, s3)"
      by (cases "runBody n tk (cb (pendingPayload s)) ?s2") auto
    have ih: "Q ?s2 s3 \<and> isDispatching s3"
      using 2(1)[of ?s1 cb] Some 2(2) r by simp
    have q3: "Q s s3" using trans[OF q2] ih by simp
    have q6: "Q s (s3\<lparr>isHandled := (isHandled s3)(tk \<mapsto> True), log := log s3 @ [Ret tk]\<rparr>)"
      using ret[of s tk cb s3] 2(2,3) Some ih by simp
    show ?thesis using Some r q3 q6 ih by (cases r) simp_all
  qed
next
  case (3 n self s)
  then show ?case by (simp add: refl)
next
  case (4 n self ids rest s)
  obtain r s' where r: "waitFor n self ids s = (r, s')" by (cases "waitFor n self ids s") auto
  have a: "Q s s' \<and> isDispatching s'" using 4(1) 4(3) r by simp
  show ?case
  proof (cases r)
    case Returned
    then have "Q s' (snd (runBody n self rest s')) \<and> isDispatching (snd (runBody n self rest s'))"
      using 4(2)[of r s'] r a by simp
    then show ?thesis using r Returned trans[of s s'] a by simp
  qed (use r a in simp_all)
next
  case (5 n self payload rest s)
  then show ?case by (simp add: refl)
next
  case (6 n self callback rest s)
  let ?s' = "snd (register s callback)"
  have d: "isDispatching ?s'" using 6(2) by (simp add: register_def Let_def)
  have a: "Q s ?s'" using reg 6(2) by simp
  have "Q ?s' (snd (runBody n self rest ?s')) \<and> isDispatching (snd (runBody n self rest ?s'))"
    using 6(1) d by simp
  then show ?case using trans[OF a] by simp
next
  case (7 n self tk rest s)
  show ?case
  proof (cases "hasCallback s tk")
    case False
    then show ?thesis using 7 by (simp add: unregister_def refl)
  next
    case True
    let ?s' = "s\<lparr>callbacks := remove tk (callbacks s)\<rparr>"
    have u: "unregister s tk = (Returned, ?s')" using True by (simp add: unregister_def)
    have a: "Q s ?s'" using unreg 7(2) True by simp
    have "Q ?s' (snd (runBody n self rest ?s')) \<and> isDispatching (snd (runBody n self rest ?s'))"
      using 7(1)[of Returned ?s'] u 7(2) by simp
    then show ?thesis using u trans[OF a] by simp
  qed
next
  case (8 n self msg rest s)
  then show ?case by (simp add: refl)
next
  case (9 n self body handler rest s)
  obtain r1 s1 where b: "runBody n self body s = (r1, s1)"
    by (cases "runBody n self body s") auto
  have a1: "Q s s1 \<and> isDispatching s1" using 9(1) 9(5) b by simp
  show ?case
  proof (cases r1)
    case Returned
    then have "Q s1 (snd (runBody n self rest s1)) \<and> isDispatching (snd (runBody n self rest s1))"
      using 9(2)[of r1 s1] b a1 by simp
    then show ?thesis using b Returned trans[of s s1] a1 by simp
  next
    case (Threw e)
    obtain r2 s2 where h: "runBody n self handler s1 = (r2, s2)"
      by (cases "runBody n self handler s1") auto
    have a2: "Q s1 s2 \<and> isDispatching s2" using 9(3)[of r1 s1 e] b Threw a1 h by simp
    have q2: "Q s s2" using trans[of s s1 s2] a1 a2 by simp
    show ?thesis
    proof (cases r2)
      case Returned
      then have "Q s2 (snd (runBody n self rest s2)) \<and> isDispatching (snd (runBody n self rest s2))"
        using 9(4)[of r1 s1 e r2 s2] b Threw h a2 by simp
      then show ?thesis using b Threw h Returned trans[OF q2] by simp
    qed (use b Threw h q2 a2 in simp_all)
  next
    case Exhausted
    then show ?thesis using b a1 by simp
  qed
next
  case (10 n self ids s)
  then show ?case by simp
next
  case (11 n self s)
  then show ?case by (simp add: refl)
next
  case (12 n self tk ids s)
  let ?s0 = "s\<lparr>log := log s @ [Wait self tk]\<rparr>"
  have q0: "Q s ?s0" using waitlog 12 by simp
  have d0: "isDispatching ?s0" using 12 by simp
  show ?case
  proof (cases "truthy (isPending s) tk")
    case True
    show ?thesis
    proof (cases "truthy (isHandled s) tk")
      case False
      then show ?thesis using True q0 d0 by simp
    next
      case h: True
      have "Q ?s0 (snd (waitFor_loop n self ids ?s0)) \<and> isDispatching (snd (waitFor_loop n self ids ?s0))"
        using 12(1)[of ?s0] True h d0 by simp
      then show ?thesis using True h trans[OF q0] by simp
    qed
  next
    case np: False
    show ?thesis
    proof (cases "hasCallback s tk")
      case False
      then show ?thesis using np q0 d0 by (simp add: hasCallback_def keys_def)
    next
      case True
      then have hc: "hasCallback ?s0 tk" by (simp add: hasCallback_def keys_def)
      obtain r s' where r: "invokeCallback n tk ?s0 = (r, s')" by (cases "invokeCallback n tk ?s0") auto
      have a: "Q ?s0 s' \<and> isDispatching s'" using 12(2)[of ?s0] np hc d0 r by simp
      have qa: "Q s s'" using trans[OF q0] a by simp
      show ?thesis
      proof (cases r)
        case Returned
        then have "Q s' (snd (waitFor_loop n self ids s')) \<and> isDispatching (snd (waitFor_loop n self ids s'))"
          using 12(3)[of ?s0 r s'] np hc r a by simp
        then show ?thesis using np hc r Returned trans[OF qa] by simp
      qed (use np hc r a qa in simp_all)
    qed
  qed
next
  case (13 n s payload)
  then show ?case by (simp add: refl)
next
  case (14 n s)
  then show ?case by (simp add: refl)
next
  case (15 n tk ids s)
  show ?case
  proof (cases "tk \<notin> set (keys s) \<or> truthy (isPending s) tk")
    case True
    then show ?thesis using 15 by (cases "tk \<notin> set (keys s)") simp_all
  next
    case False
    obtain r s' where r: "invokeCallback n tk s = (r, s')" by (cases "invokeCallback n tk s") auto
    have a: "Q s s' \<and> isDispatching s'" using 15(3) False 15(5) r by simp
    show ?thesis
    proof (cases r)
      case Returned
      then have "Q s' (snd (dispatch_loop n ids s')) \<and> isDispatching (snd (dispatch_loop n ids s'))"
        using 15(4)[of r s'] False r a by simp
      then show ?thesis using False r Returned trans[of s s'] a by simp
    qed (use False r a in simp_all)
  qed
qed


section \<open>Basic facts about starting and stopping a dispatch\<close>

lemma dispatch_n_start:
  "\<not> isDispatching s \<Longrightarrow>
   dispatch_n n s p =
     (fst (dispatch_loop n (keys (startDispatching s p)) (startDispatching s p)),
      stopDispatching (snd (dispatch_loop n (keys (startDispatching s p)) (startDispatching s p))))"
  by (simp add: case_prod_beta)

lemma startDispatching_fields [simp]:
  "isDispatching (startDispatching s p)"
  "pendingPayload (startDispatching s p) = Some p"
  "log (startDispatching s p) = []"
  by (simp_all add: startDispatching_def)

lemma resetFlags_fields [simp]:
  "lastID (resetFlags ids s) = lastID s"
  "callbacks (resetFlags ids s) = callbacks s"
  "isDispatching (resetFlags ids s) = isDispatching s"
  "pendingPayload (resetFlags ids s) = pendingPayload s"
  "log (resetFlags ids s) = log s"
  "minted (resetFlags ids s) = minted s"
  by (induction ids arbitrary: s) simp_all

lemma startDispatching_same [simp]:
  "lastID (startDispatching s p) = lastID s"
  "callbacks (startDispatching s p) = callbacks s"
  "keys (startDispatching s p) = keys s"
  "minted (startDispatching s p) = minted s"
  by (simp_all add: startDispatching_def keys_def)

lemma stopDispatching_fields [simp]:
  "isDispatching (stopDispatching s) = False"
  "pendingPayload (stopDispatching s) = None"
  "lastID (stopDispatching s) = lastID s"
  "callbacks (stopDispatching s) = callbacks s"
  "isPending (stopDispatching s) = isPending s"
  "isHandled (stopDispatching s) = isHandled s"
  "log (stopDispatching s) = log s"
  "minted (stopDispatching s) = minted s"
  by (simp_all add: stopDispatching_def)

lemma register_fields [simp]:
  "fst (register s cb) = mkToken (lastID s)"
  "lastID (snd (register s cb)) = increment (lastID s)"
  "callbacks (snd (register s cb)) = put (mkToken (lastID s)) cb (callbacks s)"
  "minted (snd (register s cb)) = minted s @ [mkToken (lastID s)]"
  "isDispatching (snd (register s cb)) = isDispatching s"
  "isPending (snd (register s cb)) = isPending s"
  "isHandled (snd (register s cb)) = isHandled s"
  "pendingPayload (snd (register s cb)) = pendingPayload s"
  "log (snd (register s cb)) = log s"
  by (simp_all add: register_def Let_def)

lemma truthy_upd [simp]: "truthy (m(tk \<mapsto> b)) k = (if k = tk then b else truthy m k)"
  by (simp add: truthy_def)

lemma truthy_Some_True: "m k = Some True \<Longrightarrow> truthy m k"
  by (simp add: truthy_def)

lemma resetFlags_isPending:
  "isPending (resetFlags ids s) tk = (if tk \<in> set ids then Some False else isPending s tk)"
  by (induction ids arbitrary: s) auto

lemma resetFlags_isHandled:
  "isHandled (resetFlags ids s) tk = (if tk \<in> set ids then Some False else isHandled s tk)"
  by (induction ids arbitrary: s) auto

lemma startDispatching_isPending:
  "isPending (startDispatching s p) tk = (if tk \<in> set (keys s) then Some False else isPending s tk)"
  by (simp add: startDispatching_def resetFlags_isPending)

lemma startDispatching_isHandled:
  "isHandled (startDispatching s p) tk = (if tk \<in> set (keys s) then Some False else isHandled s tk)"
  by (simp add: startDispatching_def resetFlags_isHandled)

lemmas eval_defs = dispatch_def pot_def startDispatching_def stopDispatching_def keys_def
  truthy_def hasCallback_def inherited_def objectPrototype_def register_def increment_def
  unregister_def remove_def new_def mkToken_def prefix_ID_def decimal.simps digit_def Let_def

section \<open>Tokens are minted once\<close>

declare decimal.simps [simp del]

lemma digit_inj: "a < 10 \<Longrightarrow> b < 10 \<Longrightarrow> digit a = digit b \<Longrightarrow> a = b"
proof -
  assume a: "a < 10" and b: "b < 10" and e: "digit a = digit b"
  have d: "distinct ''0123456789''" by simp
  have "length ''0123456789'' = 10" by simp
  then show ?thesis using a b e d unfolding digit_def
    by (metis nth_eq_iff_index_eq)
qed

lemma decimal_nonempty: "decimal n \<noteq> []"
  by (subst decimal.simps) simp

lemma decimal_inj: "decimal n = decimal m \<Longrightarrow> n = m"
proof (induction n arbitrary: m rule: decimal.induct)
  case (1 n)
  show ?case
  proof (cases "n < 10")
    case True
    show ?thesis
    proof (cases "m < 10")
      case m: True
      have "[digit n] = [digit m]" using 1(2) True m by (subst (asm) (1 2) decimal.simps) simp
      then show ?thesis using digit_inj True m by simp
    next
      case m: False
      have "[digit n] = decimal (m div 10) @ [digit (m mod 10)]"
        using 1(2) True m by (subst (asm) (1 2) decimal.simps) simp
      then show ?thesis using decimal_nonempty[of "m div 10"] by simp
    qed
  next
    case False
    show ?thesis
    proof (cases "m < 10")
      case m: True
      have "decimal (n div 10) @ [digit (n mod 10)] = [digit m]"
        using 1(2) False m by (subst (asm) (1 2) decimal.simps) simp
      then show ?thesis using decimal_nonempty[of "n div 10"] by simp
    next
      case m: False
      have "decimal (n div 10) @ [digit (n mod 10)] = decimal (m div 10) @ [digit (m mod 10)]"
        using 1(2) False m by (subst (asm) (1 2) decimal.simps) simp
      then have a: "decimal (n div 10) = decimal (m div 10)" and b: "digit (n mod 10) = digit (m mod 10)"
        by simp_all
      have "n div 10 = m div 10" using 1(1)[OF False a] .
      moreover have "n mod 10 = m mod 10" using digit_inj[OF _ _ b] by simp
      ultimately show ?thesis by (metis div_mult_mod_eq)
    qed
  qed
qed

lemma mkToken_inj: "mkToken n = mkToken m \<Longrightarrow> n = m"
  by (simp add: mkToken_def decimal_inj)

lemma distinct_mkToken: "distinct (map mkToken [a ..< b])"
  by (simp add: distinct_map inj_on_def mkToken_inj)

lemma increment_ge: "n \<le> increment n"
  by (simp add: increment_def)

lemma increment_below: "increment n < 2 ^ 53 \<Longrightarrow> increment n = Suc n"
  by (simp add: increment_def split: if_splits)

lemma mint_refl: "mint s s"
  by (simp add: mint_def)

lemma mint_trans:
  assumes "mint a b" and "mint b c"
  shows "mint a c"
  unfolding mint_def
proof (intro conjI impI)
  show le: "lastID a \<le> lastID c" using assms by (simp add: mint_def)
  assume c: "lastID c < 2 ^ 53"
  have ab: "lastID a \<le> lastID b" and bc: "lastID b \<le> lastID c" using assms by (simp_all add: mint_def)
  then have b: "lastID b < 2 ^ 53" using c by simp
  have "[lastID a ..< lastID c] = [lastID a ..< lastID b] @ [lastID b ..< lastID c]"
    using ab bc by (metis le_Suc_ex upt_add_eq_append)
  then show "minted c = minted a @ map mkToken [lastID a ..< lastID c]"
    using assms b c by (simp add: mint_def)
qed

lemma mint_same:
  "lastID b = lastID a \<Longrightarrow> minted b = minted a \<Longrightarrow> mint a b"
  by (simp add: mint_def)

lemma mint_cong:
  "mint a b \<Longrightarrow> lastID a' = lastID a \<Longrightarrow> minted a' = minted a \<Longrightarrow>
   lastID b' = lastID b \<Longrightarrow> minted b' = minted b \<Longrightarrow> mint a' b'"
  by (simp add: mint_def)

lemma mint_register: "mint s (snd (register s cb))"
  unfolding mint_def using increment_ge[of "lastID s"] increment_below[of "lastID s"]
  by (auto simp: upt_rec)

lemma mint_eval:
  "isDispatching s \<Longrightarrow> \<not> truthy (isPending s) tk \<Longrightarrow>
     mint s (snd (invokeCallback n tk s)) \<and> isDispatching (snd (invokeCallback n tk s))"
  "isDispatching s \<Longrightarrow>
     mint s (snd (runBody n self acts s)) \<and> isDispatching (snd (runBody n self acts s))"
  "isDispatching s \<Longrightarrow>
     mint s (snd (waitFor n self ids s)) \<and> isDispatching (snd (waitFor n self ids s))"
  "isDispatching s \<Longrightarrow>
     mint s (snd (waitFor_loop n self ids s)) \<and> isDispatching (snd (waitFor_loop n self ids s))"
  "isDispatching s \<Longrightarrow>
     mint s (snd (dispatch_n n s p)) \<and> isDispatching (snd (dispatch_n n s p))"
  "isDispatching s \<Longrightarrow>
     mint s (snd (dispatch_loop n ids s)) \<and> isDispatching (snd (dispatch_loop n ids s))"
  by (rule eval_frame[where Q = mint];
      (assumption | rule mint_refl | (erule (1) mint_trans) | rule mint_register
        | (erule mint_cong; simp; fail) | (rule mint_same; simp; fail)))+

lemma mint_dispatch: "mint s (snd (dispatch s p))"
proof (cases "isDispatching s")
  case True
  then show ?thesis by (simp add: dispatch_def mint_refl)
next
  case False
  let ?s1 = "startDispatching s p"
  let ?n = "Suc (pot ?s1)"
  have a: "mint s ?s1" by (rule mint_same) simp_all
  have b: "mint ?s1 (snd (dispatch_loop ?n (keys ?s1) ?s1))" using mint_eval(6)[of ?s1] by simp
  have c: "mint (snd (dispatch_loop ?n (keys ?s1) ?s1))
                (stopDispatching (snd (dispatch_loop ?n (keys ?s1) ?s1)))"
    by (rule mint_same) simp_all
  show ?thesis unfolding dispatch_def dispatch_n_start[OF False]
    using mint_trans[OF mint_trans[OF a b] c] by simp
qed

lemma mint_unregister: "mint s (snd (unregister s tk))"
  by (rule mint_same) (simp_all add: unregister_def)

lemma exec_register:
  "fst (exec (CallRegister cb # cs) s) = mkToken (lastID s) # fst (exec cs (snd (register s cb)))"
  "snd (exec (CallRegister cb # cs) s) = snd (exec cs (snd (register s cb)))"
  using register_fields(1)[of s cb] by (simp_all add: case_prod_beta)

lemma mint_exec: "mint s (snd (exec cs s))"
proof (induction cs arbitrary: s)
  case Nil
  then show ?case by (simp add: mint_refl)
next
  case (Cons c cs)
  show ?case
  proof (cases c)
    case (CallRegister cb)
    show ?thesis unfolding CallRegister exec_register
      by (rule mint_trans[OF mint_register Cons.IH])
  next
    case (CallUnregister t)
    show ?thesis unfolding CallUnregister exec.simps
      by (rule mint_trans[OF mint_unregister Cons.IH])
  next
    case (CallDispatch p)
    show ?thesis unfolding CallDispatch exec.simps
      by (rule mint_trans[OF mint_dispatch Cons.IH])
  qed
qed

lemma exec_returned:
  "tk \<in> set (fst (exec cs s)) \<Longrightarrow> \<exists>n\<ge>lastID s. tk = mkToken n"
proof (induction cs arbitrary: s)
  case Nil
  then show ?case by simp
next
  case (Cons c cs)
  show ?case
  proof (cases c)
    case (CallRegister cb)
    let ?s' = "snd (register s cb)"
    from Cons.prems CallRegister
    have "tk = mkToken (lastID s) \<or> tk \<in> set (fst (exec cs ?s'))"
      by (simp only: exec_register set_simps insert_iff)
    then show ?thesis
    proof
      assume "tk = mkToken (lastID s)" then show ?thesis by blast
    next
      assume "tk \<in> set (fst (exec cs ?s'))"
      from Cons.IH[OF this] obtain n where "n \<ge> increment (lastID s)" "tk = mkToken n"
        by auto
      moreover have "lastID s \<le> n" using increment_ge[of "lastID s"] \<open>n \<ge> increment (lastID s)\<close>
        by (rule order_trans)
      ultimately show ?thesis by blast
    qed
  next
    case (CallUnregister t)
    have "tk \<in> set (fst (exec cs (snd (unregister s t))))" using Cons.prems CallUnregister by simp
    from Cons.IH[OF this] obtain n where n: "n \<ge> lastID (snd (unregister s t))" "tk = mkToken n"
      by auto
    have "lastID s \<le> n" using mint_unregister[of s t] n(1) by (simp add: mint_def)
    then show ?thesis using n(2) by blast
  next
    case (CallDispatch p)
    have "tk \<in> set (fst (exec cs (snd (dispatch s p))))" using Cons.prems CallDispatch by simp
    from Cons.IH[OF this] obtain n where n: "n \<ge> lastID (snd (dispatch s p))" "tk = mkToken n"
      by auto
    have "lastID s \<le> n" using mint_dispatch[of s p] n(1) by (simp add: mint_def)
    then show ?thesis using n(2) by blast
  qed
qed

lemma exec_distinct:
  "lastID (snd (exec cs s)) < 2 ^ 53 \<Longrightarrow> distinct (fst (exec cs s))"
proof (induction cs arbitrary: s)
  case Nil
  then show ?case by simp
next
  case (Cons c cs)
  show ?case
  proof (cases c)
    case (CallRegister cb)
    let ?s' = "snd (register s cb)"
    have fin: "lastID (snd (exec cs ?s')) < 2 ^ 53" using Cons.prems CallRegister
      by (simp only: exec_register)
    have "lastID ?s' \<le> lastID (snd (exec cs ?s'))" using mint_exec[of ?s' cs] by (simp add: mint_def)
    then have "increment (lastID s) < 2 ^ 53" using fin by simp
    then have inc: "increment (lastID s) = Suc (lastID s)" by (rule increment_below)
    have "mkToken (lastID s) \<notin> set (fst (exec cs ?s'))"
    proof
      assume "mkToken (lastID s) \<in> set (fst (exec cs ?s'))"
      from exec_returned[OF this] obtain n where n: "n \<ge> Suc (lastID s)" "mkToken (lastID s) = mkToken n"
        using inc by auto
      from mkToken_inj[OF n(2)] n(1) show False by simp
    qed
    then show ?thesis using CallRegister Cons.IH[OF fin]
      by (simp only: exec_register distinct.simps) simp
  next
    case (CallUnregister t)
    then show ?thesis using Cons.IH Cons.prems by simp
  next
    case (CallDispatch p)
    then show ?thesis using Cons.IH Cons.prems by simp
  qed
qed

text \<open>
  Claim C7, as stated, at \<open>saturated_example\<close>: with \<^verbatim>\<open>_lastID\<close> at \<open>2^53\<close> the
  increment \<^verbatim>\<open>this._lastID++\<close> leaves the counter where it is, and two \<^verbatim>\<open>register\<close>
  calls in a row return the same token.
\<close>

theorem saturated_counterexample:
  "fst (exec [CallRegister (\<lambda>_. []), CallRegister (\<lambda>_. [])] saturated_example)
     = [''ID_9007199254740992'', ''ID_9007199254740992'']"
  by (simp add: saturated_example_def eval_defs case_prod_beta)

text \<open>
  Claim C7, amended.  For every sequence of \<^verbatim>\<open>register\<close>, \<^verbatim>\<open>unregister\<close> and
  \<^verbatim>\<open>dispatch\<close> calls on one dispatcher, started in any state, that leaves \<^verbatim>\<open>_lastID\<close>
  below \<open>2^53\<close>: the tokens returned by the \<^verbatim>\<open>register\<close> calls of the sequence are
  pairwise distinct, and so are all the tokens minted during the sequence, those minted
  by \<^verbatim>\<open>register\<close> calls of callbacks during a dispatch included: they are the tokens
  of the numbers from the first to the last value of \<^verbatim>\<open>_lastID\<close>, each minted once.
\<close>

theorem tokens_unique:
  assumes "lastID (snd (exec cs s)) < 2 ^ 53"
  shows "distinct (fst (exec cs s))
       \<and> minted (snd (exec cs s)) = minted s @ map mkToken [lastID s ..< lastID (snd (exec cs s))]
       \<and> distinct (map mkToken [lastID s ..< lastID (snd (exec cs s))])"
  using exec_distinct[OF assms] mint_exec[of s cs] assms distinct_mkToken
  by (simp add: mint_def)

text \<open>Claim C7, amended, at \<open>nested_register_example\<close>, run on a new dispatcher.\<close>

theorem tokens_unique_witness:
  "lastID (snd (exec nested_register_example (new :: unit dispatcher))) < 2 ^ 53
   \<and> fst (exec nested_register_example (new :: unit dispatcher)) = [''ID_1'', ''ID_3'']
   \<and> minted (snd (exec nested_register_example (new :: unit dispatcher)))
       = [''ID_1'', ''ID_2'', ''ID_3'']
   \<and> distinct (fst (exec nested_register_example (new :: unit dispatcher)))"
proof -
  have l: "lastID (snd (exec nested_register_example (new :: unit dispatcher))) = 4"
    by (simp add: nested_register_example_def eval_defs case_prod_beta)
  have f: "fst (exec nested_register_example (new :: unit dispatcher)) = [''ID_1'', ''ID_3'']"
    by (simp add: nested_register_example_def eval_defs case_prod_beta)
  have m: "minted (snd (exec nested_register_example (new :: unit dispatcher)))
       = [''ID_1'', ''ID_2'', ''ID_3'']"
    by (simp add: nested_register_example_def eval_defs case_prod_beta)
  have b: "lastID (snd (exec nested_register_example (new :: unit dispatcher))) < 2 ^ 53"
    unfolding l by simp
  from tokens_unique[OF b] f m b show ?thesis by blast
qed


section \<open>The depth bound is never reached\<close>

lemma pot_log [simp]: "pot (s\<lparr>log := l\<rparr>) = pot s"
  by (simp add: pot_def)

lemma pot_handled [simp]: "pot (s\<lparr>isHandled := h\<rparr>) = pot s"
  by (simp add: pot_def)

lemma sum_filter_mono:
  "(\<And>x. x \<in> set xs \<Longrightarrow> Q' x \<Longrightarrow> Q x) \<Longrightarrow>
   sum_list (map f (filter Q' xs)) \<le> sum_list (map (f :: 'a \<Rightarrow> nat) (filter Q xs))"
  by (induction xs) (auto simp: trans_le_add2)

lemma sum_filter_less:
  assumes "x \<in> set xs" and "Q x" and "\<not> Q' x" and "\<And>y. y \<in> set xs \<Longrightarrow> Q' y \<Longrightarrow> Q y"
  shows "sum_list (map f (filter Q' xs)) + f x \<le> sum_list (map (f :: 'a \<Rightarrow> nat) (filter Q xs))"
  using assms
proof (induction xs)
  case Nil
  then show ?case by simp
next
  case (Cons a xs)
  show ?case
  proof (cases "a = x")
    case True
    have "sum_list (map f (filter Q' xs)) \<le> sum_list (map f (filter Q xs))"
      by (rule sum_filter_mono) (use Cons.prems(4) in simp)
    then show ?thesis using True Cons.prems(2,3) by simp
  next
    case False
    then have "x \<in> set xs" using Cons.prems(1) by simp
    from Cons.IH[OF this Cons.prems(2,3)] Cons.prems(4)
    have "sum_list (map f (filter Q' xs)) + f x \<le> sum_list (map f (filter Q xs))" by simp
    then show ?thesis using Cons.prems(4)[of a] by auto
  qed
qed

lemma pot_pending_le: "pot (s\<lparr>isPending := (isPending s)(tk \<mapsto> True)\<rparr>) \<le> pot s"
  unfolding pot_def by simp (rule sum_filter_mono, simp split: if_splits)

lemma pot_pending_less:
  assumes "map_of (callbacks s) tk = Some cb" and "\<not> truthy (isPending s) tk"
  shows "pot (s\<lparr>isPending := (isPending s)(tk \<mapsto> True)\<rparr>)
     + Suc (sum_list (map (weight (pendingPayload s)) (cb (pendingPayload s)))) \<le> pot s"
proof -
  have m: "(tk, cb) \<in> set (callbacks s)" using assms(1) by (rule map_of_SomeD)
  let ?Q = "\<lambda>kv :: token \<times> 'a callback. \<not> truthy (isPending s) (fst kv)"
  let ?Q' = "\<lambda>kv :: token \<times> 'a callback. \<not> truthy ((isPending s)(tk \<mapsto> True)) (fst kv)"
  let ?f = "\<lambda>kv :: token \<times> 'a callback.
              Suc (sum_list (map (weight (pendingPayload s)) (snd kv (pendingPayload s))))"
  have q: "\<And>y. y \<in> set (callbacks s) \<Longrightarrow> ?Q' y \<Longrightarrow> ?Q y" by (simp split: if_splits)
  have "?Q (tk, cb)" and "\<not> ?Q' (tk, cb)" using assms(2) by simp_all
  from sum_filter_less[of "(tk, cb)" "callbacks s" ?Q ?Q' ?f, OF m this q]
  show ?thesis unfolding pot_def by simp
qed

lemma pot_remove: "pot (s\<lparr>callbacks := remove tk (callbacks s)\<rparr>) \<le> pot s"
  unfolding pot_def by (simp add: remove_def) (rule sum_filter_mono, simp)

lemma potl_put:
  "sum_list (map f (filter P (put tk cb kvs)))
     \<le> sum_list (map (f :: token \<times> 'v \<Rightarrow> nat) (filter P kvs)) + f (tk, cb)"
  by (induction kvs) auto

lemma pot_register:
  "pot (snd (register s cb))
     \<le> pot s + Suc (sum_list (map (weight (pendingPayload s)) (cb (pendingPayload s))))"
  unfolding pot_def
  using potl_put[of "\<lambda>kv. Suc (sum_list (map (weight (pendingPayload s)) (snd kv (pendingPayload s))))"
          "\<lambda>kv. \<not> truthy (isPending s) (fst kv)" "mkToken (lastID s)" cb "callbacks s"]
  by simp

lemma within_weaken: "within n 0 s rs \<Longrightarrow> within n w s rs"
  by (auto simp: within_def)

lemma within_seq:
  assumes "within n w1 s (Returned, s1)" and "within n w2 s1 rs"
  shows "within n (w1 + w2) s rs"
  using assms by (auto simp: within_def)

lemma within_stop:
  assumes "within n w1 s (r, s1)" and "r \<noteq> Returned"
  shows "within n (w1 + w2) s (r, s1)"
  using assms by (auto simp: within_def)

lemma within_here: "isDispatching s \<Longrightarrow> r \<noteq> Exhausted \<Longrightarrow> within n w s (r, s)"
  by (simp add: within_def)

lemma within_eval:
  fixes s :: "'p dispatcher"
  shows "isDispatching s \<Longrightarrow> \<not> truthy (isPending s) tk \<Longrightarrow>
           within n 0 s (invokeCallback n tk s)"
    and "isDispatching s \<Longrightarrow>
           within n (sum_list (map (weight (pendingPayload s)) acts)) s (runBody n self acts s)"
    and "isDispatching s \<Longrightarrow> within n 0 s (waitFor n self ids s)"
    and "isDispatching s \<Longrightarrow> within n 0 s (waitFor_loop n self ids s)"
    and "isDispatching s \<Longrightarrow> within n 0 s (dispatch_n n s p)"
    and "isDispatching s \<Longrightarrow> within n 0 s (dispatch_loop n ids s)"
proof (induction n tk s and n self acts s and n self ids s and n self ids s and n s p and n ids s
       rule: eval_induct)
  case (1 tk s)
  then show ?case by (simp add: within_def)
next
  case (2 n tk s)
  let ?s1 = "s\<lparr>isPending := (isPending s)(tk \<mapsto> True)\<rparr>"
  show ?case
  proof (cases "map_of (callbacks s) tk")
    case None
    then show ?thesis using 2(2) pot_pending_le[of s tk] by (simp add: within_def)
  next
    case (Some cb)
    let ?c = "s\<lparr>isPending := (isPending s)(tk \<mapsto> True),
                 log := log s @ [Call tk (pendingPayload s)]\<rparr>"
    let ?w = "sum_list (map (weight (pendingPayload s)) (cb (pendingPayload s)))"
    have pc: "pot ?c + Suc ?w \<le> pot s" using pot_pending_less[OF Some 2(3)] by simp
    obtain r s3 where r: "runBody n tk (cb (pendingPayload s)) ?c = (r, s3)"
      by (cases "runBody n tk (cb (pendingPayload s)) ?c") auto
    have w: "within n ?w ?c (r, s3)" using 2(1)[of ?s1 cb] Some 2(2) r by simp
    let ?s4 = "s3\<lparr>isHandled := (isHandled s3)(tk \<mapsto> True), log := log s3 @ [Ret tk]\<rparr>"
    have "within (Suc n) 0 s (r, s3)" using w pc by (auto simp: within_def)
    moreover have "within (Suc n) 0 s (Returned, ?s4)" if "r = Returned"
      using w pc that by (auto simp: within_def)
    ultimately show ?thesis using Some r by (cases r) simp_all
  qed
next
  case (3 n self s)
  then show ?case by (simp add: within_def)
next
  case (4 n self ids rest s)
  obtain r s' where r: "waitFor n self ids s = (r, s')" by (cases "waitFor n self ids s") auto
  have a: "within n 0 s (r, s')" using 4(1) 4(3) r by simp
  show ?case
  proof (cases r)
    case Returned
    have "within n (sum_list (map (weight (pendingPayload s')) rest)) s' (runBody n self rest s')"
      using 4(2)[of r s'] r Returned a by (simp add: within_def)
    then show ?thesis using r Returned a by (auto simp: within_def)
  qed (use r a in \<open>auto simp: within_def\<close>)
next
  case (5 n self payload rest s)
  then show ?case by (simp add: within_def)
next
  case (6 n self callback rest s)
  let ?s' = "snd (register s callback)"
  have "within n (sum_list (map (weight (pendingPayload ?s')) rest)) ?s' (runBody n self rest ?s')"
    using 6(1) 6(2) by simp
  then show ?case using pot_register[of s callback] by (auto simp: within_def)
next
  case (7 n self tk rest s)
  show ?case
  proof (cases "hasCallback s tk")
    case False
    then show ?thesis using 7(2) by (simp add: unregister_def within_def)
  next
    case True
    let ?s' = "s\<lparr>callbacks := remove tk (callbacks s)\<rparr>"
    have u: "unregister s tk = (Returned, ?s')" using True by (simp add: unregister_def)
    have "within n (sum_list (map (weight (pendingPayload ?s')) rest)) ?s' (runBody n self rest ?s')"
      using 7(1)[of Returned ?s'] u 7(2) by simp
    then show ?thesis using u pot_remove[of tk s] by (auto simp: within_def)
  qed
next
  case (8 n self msg rest s)
  then show ?case by (simp add: within_def)
next
  case (9 n self body handler rest s)
  let ?pp = "pendingPayload s"
  let ?W = "\<lambda>acts. sum_list (map (weight ?pp) acts)"
  obtain r s1 where r: "runBody n self body s = (r, s1)" by (cases "runBody n self body s") auto
  have a: "within n (?W body) s (r, s1)" using 9(1) 9(5) r by simp
  then have d1: "isDispatching s1" and p1: "pendingPayload s1 = ?pp" by (simp_all add: within_def)
  show ?case
  proof (cases r)
    case Returned
    have "within n (?W rest) s1 (runBody n self rest s1)"
      using 9(2)[of r s1] r Returned d1 p1 by simp
    then show ?thesis using r Returned a by (auto simp: within_def)
  next
    case Exhausted
    then show ?thesis using r a by (auto simp: within_def)
  next
    case (Threw e)
    obtain r2 s2 where r2: "runBody n self handler s1 = (r2, s2)"
      by (cases "runBody n self handler s1") auto
    have b: "within n (?W handler) s1 (r2, s2)" using 9(3)[of r s1 e] r Threw d1 p1 r2 by simp
    then have d2: "isDispatching s2" and p2: "pendingPayload s2 = ?pp"
      using p1 by (simp_all add: within_def)
    show ?thesis
    proof (cases r2)
      case Returned
      have "within n (?W rest) s2 (runBody n self rest s2)"
        using 9(4)[of r s1 e r2 s2] r Threw r2 Returned d2 p2 by simp
      then show ?thesis using r Threw r2 Returned a b by (auto simp: within_def)
    qed (use r Threw r2 a b in \<open>auto simp: within_def\<close>)
  qed
next
  case (10 n self ids s)
  then show ?case by simp
next
  case (11 n self s)
  then show ?case by (simp add: within_def)
next
  case (12 n self tk ids s)
  let ?s0 = "s\<lparr>log := log s @ [Wait self tk]\<rparr>"
  have d0: "isDispatching ?s0" using 12 by simp
  show ?case
  proof (cases "truthy (isPending s) tk")
    case True
    show ?thesis
    proof (cases "truthy (isHandled s) tk")
      case False
      then show ?thesis using True 12(4) by (simp add: within_def)
    next
      case h: True
      have "within n 0 ?s0 (waitFor_loop n self ids ?s0)"
        using 12(1)[of ?s0] True h d0 by simp
      then show ?thesis using True h by (simp add: within_def)
    qed
  next
    case np: False
    show ?thesis
    proof (cases "hasCallback s tk")
      case False
      then show ?thesis using np 12(4) by (simp add: hasCallback_def keys_def within_def)
    next
      case True
      then have hc: "hasCallback ?s0 tk" by (simp add: hasCallback_def keys_def)
      obtain r s' where r: "invokeCallback n tk ?s0 = (r, s')" by (cases "invokeCallback n tk ?s0") auto
      have a: "within n 0 ?s0 (r, s')" using 12(2)[of ?s0] np hc d0 r by simp
      show ?thesis
      proof (cases r)
        case Returned
        have "within n 0 s' (waitFor_loop n self ids s')"
          using 12(3)[of ?s0 r s'] np hc r Returned a by (simp add: within_def)
        then show ?thesis using np hc r Returned a by (auto simp: within_def)
      qed (use np hc r a in \<open>auto simp: within_def\<close>)
    qed
  qed
next
  case (13 n s payload)
  then show ?case by (simp add: within_def)
next
  case (14 n s)
  then show ?case by (simp add: within_def)
next
  case (15 n tk ids s)
  show ?case
  proof (cases "tk \<notin> set (keys s) \<or> truthy (isPending s) tk")
    case True
    then show ?thesis using 15 by (cases "tk \<notin> set (keys s)") simp_all
  next
    case False
    then have np: "\<not> truthy (isPending s) tk" by simp
    obtain r s' where r: "invokeCallback n tk s = (r, s')" by (cases "invokeCallback n tk s") auto
    have a: "within n 0 s (r, s')" using 15(3) False 15(5) r by simp
    show ?thesis
    proof (cases r)
      case Returned
      have "within n 0 s' (dispatch_loop n ids s')"
        using 15(4)[of r s'] False r Returned a by (simp add: within_def)
      then show ?thesis using False r Returned a by (auto simp: within_def)
    qed (use False r a in \<open>auto simp: within_def\<close>)
  qed
qed

text \<open>
  \<^verbatim>\<open>dispatch\<close> always ends: it returns or throws, in every state and for every
  callbacks.
\<close>

theorem dispatch_not_Exhausted: "fst (dispatch s p) \<noteq> Exhausted"
proof (cases "isDispatching s")
  case True
  then show ?thesis by (simp add: dispatch_def)
next
  case False
  let ?s1 = "startDispatching s p"
  have "within (Suc (pot ?s1)) 0 ?s1 (dispatch_loop (Suc (pot ?s1)) (keys s) ?s1)"
    using within_eval(6)[of ?s1] by simp
  then have "fst (dispatch_loop (Suc (pot ?s1)) (keys s) ?s1) \<noteq> Exhausted"
    by (simp add: within_def)
  then show ?thesis unfolding dispatch_def dispatch_n_start[OF False] by simp
qed


section \<open>Guards\<close>

lemma waitFor_not_dispatching:
  "\<not> isDispatching s \<Longrightarrow> waitFor n self ids s = (Threw NotDispatchingError, s)"
  by simp

lemma unregister_unknown:
  "tk \<notin> set (keys s) \<Longrightarrow> \<not> inherited tk \<Longrightarrow> unregister s tk = (Threw (InvalidTokenError tk), s)"
  by (simp add: unregister_def hasCallback_def)

lemma waitFor_unknown:
  "isDispatching s \<Longrightarrow> \<not> truthy (isPending s) tk \<Longrightarrow> \<not> hasCallback s tk \<Longrightarrow>
   waitFor n self (tk # ids) s =
     (Threw (InvalidTokenError tk), s\<lparr>log := log s @ [Wait self tk]\<rparr>)"
  by (simp add: hasCallback_def keys_def)

text \<open>
  Claim C9, at the input \<^verbatim>\<open>new Dispatcher().unregister('toString')\<close>: no callback is
  registered under \<^verbatim>\<open>'toString'\<close>, yet \<^verbatim>\<open>this._callbacks['toString']\<close> is the
  function inherited from \<^verbatim>\<open>Object.prototype\<close>, the invariant passes, and the call
  returns normally, leaving the dispatcher as it was.  In the same way, during a dispatch,
  \<^verbatim>\<open>waitFor(['toString'])\<close> reads inherited functions for both flags and returns
  normally.
\<close>

theorem unregister_inherited_name:
  "unregister (new :: 'p dispatcher) ''toString'' = (Returned, new)
   \<and> fst (waitFor n self [''toString''] (startDispatching (new :: 'p dispatcher) p)) = Returned"
  by (simp add: unregister_def hasCallback_def inherited_def objectPrototype_def keys_def
        new_def remove_def truthy_def startDispatching_def)

text \<open>
  Claim C8.  In every state in which \<^verbatim>\<open>isDispatching()\<close> is true, a call of
  \<^verbatim>\<open>dispatch\<close> fails with \<open>ReentrantDispatchError\<close> and changes nothing: no new cycle
  is started.  This holds for a call by the application and for a call made by the body
  of a callback.
\<close>

theorem dispatch_reentrant:
  "isDispatching s \<Longrightarrow>
     dispatch s p = (Threw ReentrantDispatchError, s) \<and>
     runBody n self (Dispatch p # rest) s = (Threw ReentrantDispatchError, s)"
  by (simp add: dispatch_def)

text \<open>Claim C8 at a dispatcher that is dispatching.\<close>

theorem dispatch_reentrant_witness:
  "isDispatching (startDispatching (new :: unit dispatcher) ()) \<and>
   dispatch (startDispatching (new :: unit dispatcher) ()) ()
     = (Threw ReentrantDispatchError, startDispatching new ()) \<and>
   runBody 0 ''ID_1'' [Dispatch ()] (startDispatching (new :: unit dispatcher) ())
     = (Threw ReentrantDispatchError, startDispatching new ())"
  using dispatch_reentrant[of "startDispatching (new :: unit dispatcher) ()" "()" 0 "''ID_1''" "[]"]
  by simp

section \<open>The reduce store\<close>

text \<open>
  Claim C10.  When \<^verbatim>\<open>reduce\<close> returns \<^verbatim>\<open>undefined\<close> for the action, the callback of
  the store fails, with \<^verbatim>\<open>_state\<close> and the emitter untouched.  When \<^verbatim>\<open>reduce\<close> does
  not return \<^verbatim>\<open>undefined\<close>, that failure does not happen, and if the state it returns
  is \<^verbatim>\<open>areEqual\<close> to the starting state, \<^verbatim>\<open>_state\<close> is unchanged and nothing is
  emitted.
\<close>

theorem reduce_undefined_fails:
  "(reduce (state st) a1 = None \<longrightarrow>
      invokeOnDispatch reduce eq d st a1 = (Threw UndefinedReduceError, st\<lparr>changed := False\<rparr>))
   \<and> (reduce (state st) a2 \<noteq> None \<longrightarrow>
      fst (invokeOnDispatch reduce eq d st a2) \<noteq> Threw UndefinedReduceError
      \<and> (eq (state st) (reduce (state st) a2) \<longrightarrow>
           invokeOnDispatch reduce eq d st a2 = (Returned, st\<lparr>changed := False\<rparr>)))"
  by (auto simp: invokeOnDispatch_def emitChange_def Let_def split: prod.splits outcome.splits)

text \<open>Claim C10 at a store whose \<^verbatim>\<open>reduce\<close> returns \<^verbatim>\<open>undefined\<close> for action 0.\<close>

theorem reduce_undefined_fails_witness:
  "(\<lambda>s a. if a = (0::nat) then None else s) (state \<lparr>state = Some (1::nat), changed = True, emitted = 0\<rparr>) 0 = None
   \<and> invokeOnDispatch (\<lambda>s a. if a = (0::nat) then None else s) areEqual True
        \<lparr>state = Some (1::nat), changed = True, emitted = 0\<rparr> 0
       = (Threw UndefinedReduceError, \<lparr>state = Some 1, changed = False, emitted = 0\<rparr>)
   \<and> (\<lambda>s a. if a = (0::nat) then None else s) (state \<lparr>state = Some (1::nat), changed = True, emitted = 0\<rparr>) 1 \<noteq> None
   \<and> areEqual (state \<lparr>state = Some (1::nat), changed = True, emitted = 0\<rparr>)
        ((\<lambda>s a. if a = (0::nat) then None else s) (state \<lparr>state = Some (1::nat), changed = True, emitted = 0\<rparr>) 1)
   \<and> invokeOnDispatch (\<lambda>s a. if a = (0::nat) then None else s) areEqual True
        \<lparr>state = Some (1::nat), changed = True, emitted = 0\<rparr> 1
       = (Returned, \<lparr>state = Some 1, changed = False, emitted = 0\<rparr>)"
  using reduce_undefined_fails[of "\<lambda>s a. if a = (0::nat) then None else s"
          "\<lparr>state = Some (1::nat), changed = True, emitted = 0\<rparr>" 0 areEqual True 1]
  by (simp add: areEqual_def)

section \<open>Cleanup after a dispatch\<close>






section \<open>Entries of the flag dictionaries\<close>

lemma entries_rel_refl: "entries_rel s s"
  by (simp add: entries_rel_def)

lemma entries_rel_trans: "entries_rel a b \<Longrightarrow> entries_rel b c \<Longrightarrow> entries_rel a c"
  unfolding entries_rel_def by blast

lemma entries_rel_cong:
  "entries_rel a b \<Longrightarrow> dom (isPending a') \<subseteq> dom (isPending a) \<Longrightarrow>
   dom (isHandled a') \<subseteq> dom (isHandled a) \<Longrightarrow> dom (isPending b) \<subseteq> dom (isPending b') \<Longrightarrow>
   dom (isHandled b) \<subseteq> dom (isHandled b') \<Longrightarrow> entries_rel a' b'"
  unfolding entries_rel_def by (meson subset_trans)

lemma entries_rel_eval:
  "isDispatching s \<Longrightarrow> \<not> truthy (isPending s) tk \<Longrightarrow>
     entries_rel s (snd (invokeCallback n tk s)) \<and> isDispatching (snd (invokeCallback n tk s))"
  "isDispatching s \<Longrightarrow>
     entries_rel s (snd (runBody n self acts s)) \<and> isDispatching (snd (runBody n self acts s))"
  "isDispatching s \<Longrightarrow>
     entries_rel s (snd (waitFor n self ids s)) \<and> isDispatching (snd (waitFor n self ids s))"
  "isDispatching s \<Longrightarrow>
     entries_rel s (snd (waitFor_loop n self ids s)) \<and> isDispatching (snd (waitFor_loop n self ids s))"
  "isDispatching s \<Longrightarrow>
     entries_rel s (snd (dispatch_n n s p)) \<and> isDispatching (snd (dispatch_n n s p))"
  "isDispatching s \<Longrightarrow>
     entries_rel s (snd (dispatch_loop n ids s)) \<and> isDispatching (snd (dispatch_loop n ids s))"
  by (rule eval_frame[where Q = entries_rel];
      (assumption | rule entries_rel_refl | (erule (1) entries_rel_trans)
        | (erule entries_rel_cong; auto; fail)
        | (rule entries_rel_cong[OF entries_rel_refl]; auto; fail)))+

text \<open>
  Claim C6, as stated, at \<open>stale_example\<close>: when the next dispatch starts, the token
  \<^verbatim>\<open>ID_1\<close> is not registered, but both dictionaries still hold its entry, and the
  entry is not reset.
\<close>

theorem stale_entries_counterexample:
  "''ID_1'' \<notin> set (keys (startDispatching stale_example ())) \<and>
   isPending (startDispatching stale_example ()) ''ID_1'' = Some True \<and>
   isHandled (startDispatching stale_example ()) ''ID_1'' = Some True"
  by (simp add: stale_example_def eval_defs)

text \<open>
  In the other direction, at \<open>late_example\<close>: at the end of the loop of a dispatch,
  before the cleanup, the token \<^verbatim>\<open>ID_2\<close>, registered by the callback of \<^verbatim>\<open>ID_1\<close>, is
  registered and has no entry in either dictionary.
\<close>

lemma late_registration_no_entry:
  "isDispatching (snd (dispatch_loop (Suc (Suc 0)) (keys late_example) (startDispatching late_example ())))
   \<and> keys (snd (dispatch_loop (Suc (Suc 0)) (keys late_example) (startDispatching late_example ())))
       = [''ID_1'', ''ID_2'']
   \<and> isPending (snd (dispatch_loop (Suc (Suc 0)) (keys late_example) (startDispatching late_example ())))
        ''ID_2'' = None
   \<and> isHandled (snd (dispatch_loop (Suc (Suc 0)) (keys late_example) (startDispatching late_example ())))
        ''ID_2'' = None"
  by (simp add: late_example_def eval_defs)

text \<open>
  Claim C6, amended.  At the start of every dispatch the entries of every registered
  token are reset to false in both dictionaries, and the entries of every other token
  are left as they are, neither removed nor reset.  \<^verbatim>\<open>register\<close>, \<^verbatim>\<open>unregister\<close> and
  the cleanup of a dispatch leave both dictionaries as they are, so a callback
  registered during a dispatch gets no entry by its registration, and an unregistered
  token keeps its entries.  During the dispatch no entry is removed: at the end of the
  loop over any keys both dictionaries hold an entry for every token that was registered
  when the dispatch started, and the entries present before any part of the body of a
  callback are present after it.
\<close>

theorem registered_tokens_have_entries:
  "(tk \<in> set (keys s) \<longrightarrow> isPending (startDispatching s p) tk = Some False
                         \<and> isHandled (startDispatching s p) tk = Some False)
   \<and> (k \<notin> set (keys s) \<longrightarrow> isPending (startDispatching s p) k = isPending s k
                         \<and> isHandled (startDispatching s p) k = isHandled s k)
   \<and> isPending (snd (register s cb)) = isPending s
   \<and> isHandled (snd (register s cb)) = isHandled s
   \<and> isPending (snd (unregister s k')) = isPending s
   \<and> isHandled (snd (unregister s k')) = isHandled s
   \<and> isPending (stopDispatching s) = isPending s
   \<and> isHandled (stopDispatching s) = isHandled s
   \<and> set (keys s) \<subseteq> dom (isPending (snd (dispatch_loop n ids (startDispatching s p))))
                      \<inter> dom (isHandled (snd (dispatch_loop n ids (startDispatching s p))))
   \<and> (isDispatching t \<longrightarrow>
        dom (isPending t) \<subseteq> dom (isPending (snd (runBody n self acts t)))
        \<and> dom (isHandled t) \<subseteq> dom (isHandled (snd (runBody n self acts t))))"
proof -
  let ?s1 = "startDispatching s p"
  have a: "tk \<in> set (keys s) \<longrightarrow> isPending ?s1 tk = Some False \<and> isHandled ?s1 tk = Some False"
    by (simp add: startDispatching_isPending startDispatching_isHandled)
  have b: "k \<notin> set (keys s) \<longrightarrow> isPending ?s1 k = isPending s k \<and> isHandled ?s1 k = isHandled s k"
    by (simp add: startDispatching_isPending startDispatching_isHandled)
  have c: "isPending (snd (unregister s k')) = isPending s"
      "isHandled (snd (unregister s k')) = isHandled s"
    by (simp_all add: unregister_def)
  have "set (keys ?s1) \<subseteq> dom (isPending ?s1) \<inter> dom (isHandled ?s1)"
    by (auto simp: startDispatching_isPending startDispatching_isHandled)
  moreover have "entries_rel ?s1 (snd (dispatch_loop n ids ?s1))"
    using entries_rel_eval(6)[of ?s1] by simp
  ultimately have d: "set (keys s) \<subseteq> dom (isPending (snd (dispatch_loop n ids ?s1)))
                      \<inter> dom (isHandled (snd (dispatch_loop n ids ?s1)))"
    unfolding entries_rel_def by (simp only: startDispatching_same) (meson le_inf_iff subset_trans)
  have e: "isDispatching t \<longrightarrow>
        dom (isPending t) \<subseteq> dom (isPending (snd (runBody n self acts t)))
        \<and> dom (isHandled t) \<subseteq> dom (isHandled (snd (runBody n self acts t)))"
    using entries_rel_eval(2)[of t n self acts] by (simp add: entries_rel_def)
  from a b c d e show ?thesis by simp
qed

text \<open>
  Claim C6, amended, at \<open>reused_example\<close>: \<^verbatim>\<open>ID_2\<close> is registered and \<^verbatim>\<open>ID_1\<close> is not;
  the body of \<^verbatim>\<open>ID_2\<close> is run in the state in which the dispatch starts.
\<close>

theorem registered_tokens_have_entries_witness:
  "''ID_2'' \<in> set (keys reused_example)
   \<and> isPending (startDispatching reused_example ()) ''ID_2'' = Some False
   \<and> isHandled (startDispatching reused_example ()) ''ID_2'' = Some False
   \<and> ''ID_1'' \<notin> set (keys reused_example)
   \<and> isPending (startDispatching reused_example ()) ''ID_1'' = Some True
   \<and> isHandled (startDispatching reused_example ()) ''ID_1'' = Some True
   \<and> isDispatching (startDispatching reused_example ())
   \<and> dom (isPending (startDispatching reused_example ()))
        \<subseteq> dom (isPending (snd (runBody 1 ''ID_2'' [Register (\<lambda>_. [])]
                                  (startDispatching reused_example ()))))
   \<and> dom (isHandled (startDispatching reused_example ()))
        \<subseteq> dom (isHandled (snd (runBody 1 ''ID_2'' [Register (\<lambda>_. [])]
                                  (startDispatching reused_example ()))))"
proof -
  have k: "keys reused_example = [''ID_2'']"
    by (simp add: reused_example_def stale_example_def eval_defs)
  have p: "isPending reused_example ''ID_1'' = Some True"
    by (simp add: reused_example_def stale_example_def eval_defs)
  have h: "isHandled reused_example ''ID_1'' = Some True"
    by (simp add: reused_example_def stale_example_def eval_defs)
  have d: "isDispatching (startDispatching reused_example ())" by simp
  from registered_tokens_have_entries[of "''ID_2''" reused_example "()" "''ID_1''" "\<lambda>_. []" "''ID_1''"
         1 "[]" "startDispatching reused_example ()" "''ID_2''" "[Register (\<lambda>_. [])]"] k p h d
  show ?thesis by simp
qed


section \<open>Flags of pending tokens\<close>

lemma map_of_remove: "map_of (remove tk kvs) k = (if k = tk then None else map_of kvs k)"
  unfolding remove_def by (induction kvs) auto

lemma keys_remove: "set (map fst (remove tk kvs)) = set (map fst kvs) - {tk}"
  unfolding remove_def by (induction kvs) auto

lemma frozen_eval:
  assumes "isDispatching s"
  shows "\<not> truthy (isPending s) tk \<Longrightarrow> frozen s (snd (invokeCallback n tk s))"
    and "frozen s (snd (runBody n self acts s))"
    and "frozen s (snd (waitFor n self ids s))"
    and "frozen s (snd (waitFor_loop n self ids s))"
    and "frozen s (snd (dispatch_loop n ids s))"
proof -
  have r: "\<And>s :: 'p dispatcher. frozen s s" by (simp add: frozen_def)
  have t: "\<And>a b c :: 'p dispatcher. frozen a b \<Longrightarrow> frozen b c \<Longrightarrow> frozen a c"
    unfolding frozen_def by metis
  have c: "\<And>(s :: 'p dispatcher) tk. isDispatching s \<Longrightarrow> \<not> truthy (isPending s) tk \<Longrightarrow>
             frozen s (s\<lparr>isPending := (isPending s)(tk \<mapsto> True),
                        log := log s @ [Call tk (pendingPayload s)]\<rparr>)"
    by (auto simp: frozen_def)
  have rt: "\<And>(s :: 'p dispatcher) tk cb s2. isDispatching s \<Longrightarrow> \<not> truthy (isPending s) tk \<Longrightarrow>
      map_of (callbacks s) tk = Some cb \<Longrightarrow>
      frozen (s\<lparr>isPending := (isPending s)(tk \<mapsto> True),
                      log := log s @ [Call tk (pendingPayload s)]\<rparr>) s2 \<Longrightarrow>
      isDispatching s2 \<Longrightarrow>
      frozen s (s2\<lparr>isHandled := (isHandled s2)(tk \<mapsto> True), log := log s2 @ [Ret tk]\<rparr>)"
  proof -
    fix s :: "'p dispatcher" and tk s2
    assume g: "\<not> truthy (isPending s) tk"
      and f: "frozen (s\<lparr>isPending := (isPending s)(tk \<mapsto> True),
                      log := log s @ [Call tk (pendingPayload s)]\<rparr>) s2"
    show "frozen s (s2\<lparr>isHandled := (isHandled s2)(tk \<mapsto> True), log := log s2 @ [Ret tk]\<rparr>)"
      unfolding frozen_def
    proof (intro allI conjI impI)
      fix k assume "isPending s k = Some True"
      moreover from this g have "k \<noteq> tk" by (auto simp: truthy_def)
      ultimately show "isPending (s2\<lparr>isHandled := (isHandled s2)(tk \<mapsto> True), log := log s2 @ [Ret tk]\<rparr>) k = Some True"
        using f by (simp add: frozen_def)
    next
      fix k assume p: "truthy (isPending s) k"
      with g have ne: "k \<noteq> tk" by auto
      from f p ne have "truthy (isPending s2) k \<and> truthy (isHandled s2) k = truthy (isHandled s) k"
        by (simp add: frozen_def)
      then show "truthy (isPending (s2\<lparr>isHandled := (isHandled s2)(tk \<mapsto> True), log := log s2 @ [Ret tk]\<rparr>)) k"
        and "truthy (isHandled (s2\<lparr>isHandled := (isHandled s2)(tk \<mapsto> True), log := log s2 @ [Ret tk]\<rparr>)) k
             = truthy (isHandled s) k"
        using ne by simp_all
    qed
  qed
  have nc: "\<And>(s :: 'p dispatcher) tk. isDispatching s \<Longrightarrow> \<not> truthy (isPending s) tk \<Longrightarrow>
             map_of (callbacks s) tk = None \<Longrightarrow> frozen s (s\<lparr>isPending := (isPending s)(tk \<mapsto> True)\<rparr>)"
    by (auto simp: frozen_def)
  have wl: "\<And>(s :: 'p dispatcher) self tk. isDispatching s \<Longrightarrow> frozen s (s\<lparr>log := log s @ [Wait self tk]\<rparr>)"
    by (auto simp: frozen_def)
  have ur: "\<And>(s :: 'p dispatcher) tk. isDispatching s \<Longrightarrow> hasCallback s tk \<Longrightarrow> frozen s (s\<lparr>callbacks := remove tk (callbacks s)\<rparr>)"
    by (auto simp: frozen_def)
  have rg: "\<And>(s :: 'p dispatcher) cb. frozen s (snd (register s cb))"
    by (simp add: frozen_def)
  have fr: "isDispatching s \<Longrightarrow> \<not> truthy (isPending s) tk \<Longrightarrow>
              frozen s (snd (invokeCallback n tk s)) \<and> isDispatching (snd (invokeCallback n tk s))"
      "isDispatching s \<Longrightarrow>
              frozen s (snd (runBody n self acts s)) \<and> isDispatching (snd (runBody n self acts s))"
      "isDispatching s \<Longrightarrow>
              frozen s (snd (waitFor n self ids s)) \<and> isDispatching (snd (waitFor n self ids s))"
      "isDispatching s \<Longrightarrow>
              frozen s (snd (waitFor_loop n self ids s)) \<and> isDispatching (snd (waitFor_loop n self ids s))"
      "isDispatching s \<Longrightarrow>
              frozen s (snd (dispatch_loop n ids s)) \<and> isDispatching (snd (dispatch_loop n ids s))"
    by (rule eval_frame[where Q = frozen];
        (assumption | rule r | (erule (1) t) | (rule c; assumption) | (rule rt; assumption)
          | (rule nc; assumption) | (rule wl; assumption) | (rule ur; assumption) | rule rg))+
  show "\<not> truthy (isPending s) tk \<Longrightarrow> frozen s (snd (invokeCallback n tk s))"
    using fr(1)[OF assms] by simp
  show "frozen s (snd (runBody n self acts s))" using fr(2)[OF assms] by simp
  show "frozen s (snd (waitFor n self ids s))" using fr(3)[OF assms] by simp
  show "frozen s (snd (waitFor_loop n self ids s))" using fr(4)[OF assms] by simp
  show "frozen s (snd (dispatch_loop n ids s))" using fr(5)[OF assms] by simp
qed


lemma stays_dispatching:
  assumes "isDispatching s"
  shows "\<not> truthy (isPending s) tk \<Longrightarrow> isDispatching (snd (invokeCallback n tk s))"
    and "isDispatching (snd (runBody n self acts s))"
    and "isDispatching (snd (waitFor_loop n self ids s))"
    and "isDispatching (snd (dispatch_loop n ids s))"
  using eval_frame(1)[where Q = "\<lambda>a b. True", of s tk n]
        eval_frame(2)[where Q = "\<lambda>a b. True", of s n self acts]
        eval_frame(4)[where Q = "\<lambda>a b. True", of s n self ids]
        eval_frame(6)[where Q = "\<lambda>a b. True", of s n ids] assms
  by simp_all

lemma waitFor_open:
  assumes "isDispatching t" and "truthy (isPending t) tk" and "\<not> truthy (isHandled t) tk"
  shows "waitFor m self (tk # ids) t =
           (Threw (CircularDependencyError tk), t\<lparr>log := log t @ [Wait self tk]\<rparr>)"
  using assms by simp

text \<open>
  Claim C5.  When the callback of a token throws during its invocation in a dispatch
  (the token was neither pending nor handled before), then after the throw the token
  is pending and not handled, and this stays so whatever runs later in the same
  dispatch; a \<^verbatim>\<open>waitFor\<close> on that token, right after the throw or later, raises
  \<open>CircularDependencyError\<close> for it: the callback is neither invoked again nor skipped.
\<close>

theorem failed_callback_stays_open:
  assumes d: "isDispatching s" and np: "\<not> truthy (isPending s) tk"
    and nh: "\<not> truthy (isHandled s) tk"
    and thr: "invokeCallback n tk s = (Threw e, s')"
  shows "isPending s' tk = Some True \<and> \<not> truthy (isHandled s') tk \<and> isDispatching s'
     \<and> waitFor m self (tk # ids) s' =
           (Threw (CircularDependencyError tk), s'\<lparr>log := log s' @ [Wait self tk]\<rparr>)
     \<and> isPending (snd (runBody m' self' acts s')) tk = Some True
     \<and> \<not> truthy (isHandled (snd (runBody m' self' acts s'))) tk
     \<and> fst (waitFor m self (tk # ids) (snd (runBody m' self' acts s')))
           = Threw (CircularDependencyError tk)"
proof -
  obtain n' where n: "n = Suc n'" using thr by (cases n) auto
  let ?c = "s\<lparr>isPending := (isPending s)(tk \<mapsto> True),
               log := log s @ [Call tk (pendingPayload s)]\<rparr>"
  have flags: "isPending s' tk = Some True \<and> \<not> truthy (isHandled s') tk"
  proof (cases "map_of (callbacks s) tk")
    case None
    then show ?thesis using thr n nh by auto
  next
    case (Some cb)
    obtain r s2 where b: "runBody n' tk (cb (pendingPayload s)) ?c = (r, s2)"
      by (cases "runBody n' tk (cb (pendingPayload s)) ?c") auto
    from thr n Some b have "s2 = s'" by (cases r) auto
    moreover have "frozen ?c (snd (runBody n' tk (cb (pendingPayload s)) ?c))"
      by (rule frozen_eval(2)) (simp add: d)
    ultimately have "frozen ?c s'" using b by simp
    then show ?thesis using nh unfolding frozen_def
      by (metis (no_types, lifting) dispatcher.select_convs(3,4) dispatcher.surjective
          dispatcher.update_convs(4,7) fun_upd_same truthy_Some_True)
  qed
  have d': "isDispatching s'"
    using stays_dispatching(1)[OF d np, of n] thr by simp
  let ?t = "snd (runBody m' self' acts s')"
  have "frozen s' ?t" by (rule frozen_eval(2)[OF d'])
  with flags have flags': "isPending ?t tk = Some True \<and> \<not> truthy (isHandled ?t) tk"
    unfolding frozen_def by (metis truthy_Some_True)
  have dt: "isDispatching ?t" by (rule stays_dispatching(2)[OF d'])
  show ?thesis
    using flags flags' d' waitFor_open[OF d', of tk m self ids]
      waitFor_open[OF dt, of tk m self ids]
    by (simp add: truthy_Some_True)
qed

text \<open>Claim C5 at \<open>throwing_example\<close>, whose callback throws.\<close>

theorem failed_callback_stays_open_witness:
  "isDispatching (startDispatching throwing_example ())
   \<and> \<not> truthy (isPending (startDispatching throwing_example ())) ''ID_1''
   \<and> \<not> truthy (isHandled (startDispatching throwing_example ())) ''ID_1''
   \<and> fst (invokeCallback (Suc 0) ''ID_1'' (startDispatching throwing_example ()))
       = Threw (ApplicationError ''boom'')
   \<and> isPending (snd (invokeCallback (Suc 0) ''ID_1'' (startDispatching throwing_example ())))
         ''ID_1'' = Some True
   \<and> \<not> truthy (isHandled (snd (invokeCallback (Suc 0) ''ID_1''
                                     (startDispatching throwing_example ())))) ''ID_1''
   \<and> fst (waitFor 0 ''ID_2'' [''ID_1'']
            (snd (invokeCallback (Suc 0) ''ID_1'' (startDispatching throwing_example ()))))
       = Threw (CircularDependencyError ''ID_1'')"
proof -
  let ?s = "startDispatching throwing_example ()"
  have k: "keys throwing_example = [''ID_1'']"
    by (simp add: throwing_example_def eval_defs)
  have h1: "isDispatching ?s" by simp
  have h2: "\<not> truthy (isPending ?s) ''ID_1''"
    by (simp add: truthy_def startDispatching_isPending k)
  have h3: "\<not> truthy (isHandled ?s) ''ID_1''"
    by (simp add: truthy_def startDispatching_isHandled k)
  have f: "fst (invokeCallback (Suc 0) ''ID_1'' ?s) = Threw (ApplicationError ''boom'')"
    by (simp add: throwing_example_def eval_defs)
  have h4: "invokeCallback (Suc 0) ''ID_1'' ?s
      = (Threw (ApplicationError ''boom''), snd (invokeCallback (Suc 0) ''ID_1'' ?s))"
    using f by (metis prod.collapse)
  have w: "waitFor 0 ''ID_2'' [''ID_1''] (snd (invokeCallback (Suc 0) ''ID_1'' ?s))
         = (Threw (CircularDependencyError ''ID_1''),
            (snd (invokeCallback (Suc 0) ''ID_1'' ?s))
              \<lparr>log := log (snd (invokeCallback (Suc 0) ''ID_1'' ?s)) @ [Wait ''ID_2'' ''ID_1'']\<rparr>)"
    using failed_callback_stays_open[OF h1 h2 h3 h4, of 0 "''ID_2''" "[]"] by blast
  have "fst (waitFor 0 ''ID_2'' [''ID_1''] (snd (invokeCallback (Suc 0) ''ID_1'' ?s)))
       = Threw (CircularDependencyError ''ID_1'')"
    by (simp only: w fst_conv)
  with failed_callback_stays_open[OF h1 h2 h3 h4, of 0 "''ID_2''" "[]"] h1 h2 h3 f
  show ?thesis by blast
qed


section \<open>A callback is called at most once in a dispatch\<close>

lemma calls_append [simp]: "calls (xs @ ys) = calls xs @ calls ys"
  by (induction xs rule: calls.induct) simp_all

lemma callToks_append [simp]: "callToks (xs @ ys) = callToks xs @ callToks ys"
  by (simp add: callToks_def)

lemma callToks_simps [simp]:
  "callToks [] = []"
  "callToks (Call tk p # es) = tk # callToks es"
  "callToks (Ret tk # es) = callToks es"
  "callToks (Wait a b # es) = callToks es"
  by (simp_all add: callToks_def)

lemma once_refl: "once s s"
  unfolding once_def by (rule exI[of _ "[]"]) simp

lemma once_trans:
  assumes "once a b" and "once b c"
  shows "once a c"
proof -
  from assms(1) obtain l1 where l1: "log b = log a @ l1" "distinct (callToks l1)"
    "\<forall>k \<in> set (callToks l1). \<not> truthy (isPending a) k \<and> truthy (isPending b) k"
    "\<forall>k. truthy (isPending a) k \<longrightarrow> truthy (isPending b) k"
    unfolding once_def by blast
  from assms(2) obtain l2 where l2: "log c = log b @ l2" "distinct (callToks l2)"
    "\<forall>k \<in> set (callToks l2). \<not> truthy (isPending b) k \<and> truthy (isPending c) k"
    "\<forall>k. truthy (isPending b) k \<longrightarrow> truthy (isPending c) k"
    unfolding once_def by blast
  have "log c = log a @ (l1 @ l2)" using l1(1) l2(1) by simp
  moreover have "distinct (callToks (l1 @ l2))" using l1(2,3) l2(2,3) by auto
  moreover have "\<forall>k \<in> set (callToks (l1 @ l2)). \<not> truthy (isPending a) k \<and> truthy (isPending c) k"
    using l1(3,4) l2(3,4) by auto
  moreover have "\<forall>k. truthy (isPending a) k \<longrightarrow> truthy (isPending c) k"
    using l1(4) l2(4) by blast
  ultimately show ?thesis unfolding once_def by blast
qed

lemma once_call:
  "\<not> truthy (isPending s) tk \<Longrightarrow>
   once s (s\<lparr>isPending := (isPending s)(tk \<mapsto> True), log := log s @ [Call tk (pendingPayload s)]\<rparr>)"
  unfolding once_def by (rule exI[of _ "[Call tk (pendingPayload s)]"]) simp

lemma once_handled:
  "once s (s\<lparr>isHandled := (isHandled s)(tk \<mapsto> True), log := log s @ [Ret tk]\<rparr>)"
  unfolding once_def by (rule exI[of _ "[Ret tk]"]) simp

lemma once_pending: "once s (s\<lparr>isPending := (isPending s)(tk \<mapsto> True)\<rparr>)"
  unfolding once_def by (rule exI[of _ "[]"]) simp

lemma once_wait: "once s (s\<lparr>log := log s @ [Wait self tk]\<rparr>)"
  unfolding once_def by (rule exI[of _ "[Wait self tk]"]) simp

lemma once_unregister: "once s (s\<lparr>callbacks := remove tk (callbacks s)\<rparr>)"
  unfolding once_def by (rule exI[of _ "[]"]) simp

lemma once_register: "once s (snd (register s cb))"
  unfolding once_def by (rule exI[of _ "[]"]) simp

lemma once_eval:
  "isDispatching s \<Longrightarrow> \<not> truthy (isPending s) tk \<Longrightarrow>
     once s (snd (invokeCallback n tk s)) \<and> isDispatching (snd (invokeCallback n tk s))"
  "isDispatching s \<Longrightarrow>
     once s (snd (runBody n self acts s)) \<and> isDispatching (snd (runBody n self acts s))"
  "isDispatching s \<Longrightarrow>
     once s (snd (waitFor n self ids s)) \<and> isDispatching (snd (waitFor n self ids s))"
  "isDispatching s \<Longrightarrow>
     once s (snd (waitFor_loop n self ids s)) \<and> isDispatching (snd (waitFor_loop n self ids s))"
  "isDispatching s \<Longrightarrow>
     once s (snd (dispatch_loop n ids s)) \<and> isDispatching (snd (dispatch_loop n ids s))"
  by (rule eval_frame[where Q = once];
      (assumption | rule once_refl | (erule (1) once_trans) | (rule once_call; assumption)
        | (erule once_trans[OF once_trans[OF once_call], OF _ _ once_handled]; assumption)
        | rule once_pending | rule once_wait | rule once_unregister | rule once_register))+

lemma waitFor_handled:
  assumes "isDispatching t" and "truthy (isPending t) T" and "truthy (isHandled t) T"
  shows "waitFor n self [T] t = (Returned, t\<lparr>log := log t @ [Wait self T]\<rparr>)"
  using assms by simp

text \<open>
  Claim C4.  In every dispatch, whatever the callbacks do, no callback is called twice;
  and a \<^verbatim>\<open>waitFor\<close> on a token that is already pending and handled returns normally
  without calling its callback: it only leaves its trace in the log.
\<close>

theorem invoked_at_most_once:
  "(\<not> isDispatching s \<longrightarrow> distinct (callToks (log (snd (dispatch s p)))))
   \<and> (isDispatching t \<and> truthy (isPending t) T \<and> truthy (isHandled t) T \<longrightarrow>
        waitFor n self [T] t = (Returned, t\<lparr>log := log t @ [Wait self T]\<rparr>))"
proof (intro conjI impI)
  assume a: "\<not> isDispatching s"
  let ?s1 = "startDispatching s p"
  let ?n = "Suc (pot ?s1)"
  have "once ?s1 (snd (dispatch_loop ?n (keys ?s1) ?s1))" using once_eval(5)[of ?s1] by simp
  then have "distinct (callToks (log (snd (dispatch_loop ?n (keys ?s1) ?s1))))"
    unfolding once_def by auto
  then show "distinct (callToks (log (snd (dispatch s p))))"
    unfolding dispatch_def dispatch_n_start[OF a] by simp
next
  assume "isDispatching t \<and> truthy (isPending t) T \<and> truthy (isHandled t) T"
  then show "waitFor n self [T] t = (Returned, t\<lparr>log := log t @ [Wait self T]\<rparr>)"
    using waitFor_handled by blast
qed

text \<open>
  Claim C4 at \<open>shared_example\<close>: the first callback waits for the second, which is
  called then; the loop skips the second; the third waits for the second and goes on.
\<close>

theorem invoked_at_most_once_witness:
  "\<not> isDispatching shared_example
   \<and> log (snd (dispatch shared_example ())) =
       [Call ''ID_1'' (Some ()), Wait ''ID_1'' ''ID_2'', Call ''ID_2'' (Some ()), Ret ''ID_2'',
        Ret ''ID_1'', Call ''ID_3'' (Some ()), Wait ''ID_3'' ''ID_2'', Ret ''ID_3'']
   \<and> fst (dispatch shared_example ()) = Returned
   \<and> distinct (callToks (log (snd (dispatch shared_example ()))))
   \<and> isDispatching (startDispatching shared_example ()
         \<lparr>isPending := [''ID_2'' \<mapsto> True], isHandled := [''ID_2'' \<mapsto> True]\<rparr>)
   \<and> waitFor 0 ''ID_3'' [''ID_2''] (startDispatching shared_example ()
         \<lparr>isPending := [''ID_2'' \<mapsto> True], isHandled := [''ID_2'' \<mapsto> True]\<rparr>)
       = (Returned, startDispatching shared_example ()
         \<lparr>isPending := [''ID_2'' \<mapsto> True], isHandled := [''ID_2'' \<mapsto> True],
           log := [Wait ''ID_3'' ''ID_2'']\<rparr>)"
proof -
  let ?t = "startDispatching shared_example ()
         \<lparr>isPending := [''ID_2'' \<mapsto> True], isHandled := [''ID_2'' \<mapsto> True]\<rparr>"
  have a: "\<not> isDispatching shared_example"
    by (simp add: shared_example_def eval_defs)
  have l: "log (snd (dispatch shared_example ())) =
       [Call ''ID_1'' (Some ()), Wait ''ID_1'' ''ID_2'', Call ''ID_2'' (Some ()), Ret ''ID_2'',
        Ret ''ID_1'', Call ''ID_3'' (Some ()), Wait ''ID_3'' ''ID_2'', Ret ''ID_3'']"
    by (simp add: shared_example_def eval_defs)
  have f: "fst (dispatch shared_example ()) = Returned"
    by (simp add: shared_example_def eval_defs)
  have b: "isDispatching ?t \<and> truthy (isPending ?t) ''ID_2'' \<and> truthy (isHandled ?t) ''ID_2''"
    by simp
  from invoked_at_most_once[of shared_example "()" ?t "''ID_2''" 0 "''ID_3''"] a b l f
  show ?thesis by simp
qed


section \<open>Dispatch without waitFor\<close>

lemma retToks_append [simp]: "retToks (xs @ ys) = retToks xs @ retToks ys"
  by (induction xs rule: retToks.induct) simp_all














section \<open>Waits in a cycle are detected\<close>

lemma pos_append_in: "x \<in> set xs \<Longrightarrow> pos (xs @ ys) x = pos xs x"
  unfolding pos_def by (induction xs) auto

lemma pos_append_notin: "x \<notin> set xs \<Longrightarrow> pos (xs @ ys) x = length xs + pos ys x"
  unfolding pos_def by (induction xs) auto

lemma pos_less: "x \<in> set xs \<Longrightarrow> pos xs x < length xs"
  unfolding pos_def by (induction xs) auto

lemma pos_Cons_same [simp]: "pos (x # ys) x = 0"
  by (simp add: pos_def)

lemma waits_append [simp]: "waits (xs @ ys) = waits xs \<union> waits ys"
  by (auto simp: waits_def)

lemma waits_simps [simp]:
  "waits [] = {}"
  "waits [Call tk p] = {}"
  "waits [Ret tk] = {}"
  "waits [Wait a b] = {(a, b)}"
  by (auto simp: waits_def)

lemma cert_from:
  assumes c: "cert l" and t: "(a, b) \<in> (waits l)\<^sup>+"
  shows "a \<in> set (callToks l) \<and>
         (if a \<in> set (retToks l)
          then b \<notin> set (callToks l) \<or> (b \<in> set (retToks l) \<and> pos (retToks l) b < pos (retToks l) a)
          else b \<notin> set (callToks l) \<or> b \<in> set (retToks l)
               \<or> pos (callToks l) a < pos (callToks l) b)"
  using t
proof (induction rule: trancl_induct)
  case (base y)
  then show ?case using c unfolding cert_def by blast
next
  case (step y z)
  from step.hyps(2) c have e: "y \<in> set (callToks l) \<and>
         (if y \<in> set (retToks l)
          then z \<notin> set (callToks l) \<or> (z \<in> set (retToks l) \<and> pos (retToks l) z < pos (retToks l) y)
          else z \<notin> set (callToks l) \<or> z \<in> set (retToks l)
               \<or> pos (callToks l) y < pos (callToks l) z)"
    unfolding cert_def by blast
  show ?case
  proof (cases "a \<in> set (retToks l)")
    case True
    with step.IH e have "y \<in> set (retToks l) \<and> pos (retToks l) y < pos (retToks l) a" by auto
    with e True step.IH show ?thesis by auto
  next
    case False
    show ?thesis
    proof (cases "y \<in> set (retToks l)")
      case True
      with e False step.IH show ?thesis by auto
    next
      case y: False
      with step.IH False e have "pos (callToks l) a < pos (callToks l) y" by auto
      with e y False step.IH show ?thesis by auto
    qed
  qed
qed

lemma cert_acyclic: "cert l \<Longrightarrow> (x, x) \<notin> (waits l)\<^sup>+"
  using cert_from[of l x x] by (auto split: if_splits)

lemma Inv_cert: "Inv X s \<Longrightarrow> cert (log s)"
  unfolding Inv_def cert_def linked_def edge_ok_def opens_def
  by (auto split: if_splits)

lemma Inv_mono: "Inv {} s \<Longrightarrow> Inv X s"
  unfolding Inv_def edge_ok_def by (auto split: if_splits)

lemma cert_wait:
  assumes "cert l" and "a \<in> set (callToks l)" and "a \<notin> set (retToks l)" and "b \<notin> set (callToks l)"
  shows "cert (l @ [Wait a b])"
  using assms unfolding cert_def by (auto split: if_splits)


lemma nocatch_Register [simp]: "nocatch pp (Register cb) = list_all (nocatch pp) (cb pp)"
  by (simp add: list_all_iff)

declare nocatch.simps(3) [simp del]

lemma nocatching_upd [simp]:
  "nocatching (s\<lparr>log := l\<rparr>) = nocatching s"
  "nocatching (s\<lparr>isPending := f\<rparr>) = nocatching s"
  "nocatching (s\<lparr>isHandled := g\<rparr>) = nocatching s"
  by (simp_all add: nocatching_def)

lemma consistent_upd [simp]:
  "consistent (s\<lparr>log := l\<rparr>) = consistent s"
  "consistent (s\<lparr>callbacks := c\<rparr>) = consistent s"
  by (simp_all add: consistent_def)

lemma nocatching_remove: "nocatching s \<Longrightarrow> nocatching (s\<lparr>callbacks := remove tk (callbacks s)\<rparr>)"
  by (auto simp: nocatching_def remove_def list_all_iff)

lemma list_all_put: "list_all P kvs \<Longrightarrow> P (k, v) \<Longrightarrow> list_all P (put k v kvs)"
  by (induction kvs) auto

lemma nocatching_register:
  "nocatching s \<Longrightarrow> list_all (nocatch (pendingPayload s)) (cb (pendingPayload s)) \<Longrightarrow>
   nocatching (snd (register s cb))"
  unfolding nocatching_def by (simp add: list_all_put)

lemma nocatching_body:
  "nocatching s \<Longrightarrow> map_of (callbacks s) tk = Some cb \<Longrightarrow>
   list_all (nocatch (pendingPayload s)) (cb (pendingPayload s))"
  unfolding nocatching_def by (auto simp: list_all_iff dest!: map_of_SomeD)

lemma opens_log_wait [simp]: "opens (s\<lparr>log := log s @ [Wait a b]\<rparr>) = opens s"
  by (simp add: opens_def)

lemma linked_wait: "linked s \<Longrightarrow> linked (s\<lparr>log := log s @ [Wait a b]\<rparr>)"
  unfolding linked_def by simp

lemma edge_ok_wait:
  "edge_ok X (s\<lparr>log := log s @ [Wait a b]\<rparr>) c d = edge_ok X s c d"
  unfolding edge_ok_def by simp

lemma Inv_wait_skip:
  assumes i: "Inv {} s" and o: "self \<in> opens s"
    and p: "truthy (isPending s) tk" and h: "truthy (isHandled s) tk"
  shows "Inv {} (s\<lparr>log := log s @ [Wait self tk]\<rparr>)"
proof -
  have l: "linked s" using i by (simp add: Inv_def)
  have "tk \<notin> opens s" using l h unfolding linked_def by blast
  then have "edge_ok {} s self tk" using o p unfolding edge_ok_def opens_def by auto
  then show ?thesis using i linked_wait[OF l] unfolding Inv_def by (auto simp: edge_ok_wait)
qed

lemma Inv_wait_invoke:
  assumes i: "Inv {} s" and o: "self \<in> opens s" and p: "\<not> truthy (isPending s) tk"
  shows "Inv {tk} (s\<lparr>log := log s @ [Wait self tk]\<rparr>)"
proof -
  have l: "linked s" using i by (simp add: Inv_def)
  have "tk \<notin> set (callToks (log s))" using l p unfolding linked_def by blast
  then have "edge_ok {tk} s self tk" using o unfolding edge_ok_def opens_def by auto
  moreover have "\<forall>(a, b) \<in> waits (log s). edge_ok {tk} s a b"
    using Inv_mono[OF i, of "{tk}"] unfolding Inv_def by simp
  ultimately show ?thesis using i linked_wait[OF l] unfolding Inv_def by (auto simp: edge_ok_wait)
qed

lemma cert_wait_invalid:
  assumes i: "Inv {} s" and o: "self \<in> opens s" and p: "\<not> truthy (isPending s) tk"
  shows "cert (log s @ [Wait self tk])"
proof (rule cert_wait)
  show "cert (log s)" using i by (rule Inv_cert)
  show "self \<in> set (callToks (log s))" "self \<notin> set (retToks (log s))"
    using o by (simp_all add: opens_def)
  have "linked s" using i by (simp add: Inv_def)
  then show "tk \<notin> set (callToks (log s))" using p unfolding linked_def by blast
qed


lemma opens_unregister [simp]: "opens (s\<lparr>callbacks := c\<rparr>) = opens s"
  by (simp add: opens_def)

lemma opens_register [simp]: "opens (snd (register s cb)) = opens s"
  by (simp add: opens_def)

lemma Inv_unregister:
  assumes "Inv {} s"
  shows "Inv {} (s\<lparr>callbacks := remove tk (callbacks s)\<rparr>)"
proof -
  let ?s' = "s\<lparr>callbacks := remove tk (callbacks s)\<rparr>"
  have "linked ?s' = linked s" by (simp add: linked_def)
  moreover have "\<And>a b. edge_ok {} ?s' a b = edge_ok {} s a b" by (simp add: edge_ok_def)
  ultimately show ?thesis using assms nocatching_remove[of s tk] unfolding Inv_def by auto
qed

lemma Inv_register:
  assumes "Inv {} s" and "list_all (nocatch (pendingPayload s)) (cb (pendingPayload s))"
  shows "Inv {} (snd (register s cb))"
proof -
  let ?s' = "snd (register s cb)"
  have "linked ?s' = linked s" by (simp add: linked_def consistent_def)
  moreover have "\<And>a b. edge_ok {} ?s' a b = edge_ok {} s a b" by (simp add: edge_ok_def)
  moreover have "nocatching ?s'" using assms by (simp add: Inv_def nocatching_register)
  ultimately show ?thesis using assms(1) unfolding Inv_def by auto
qed

lemma Inv_call:
  assumes i: "Inv {tk} s" and p: "\<not> truthy (isPending s) tk"
    and m: "map_of (callbacks s) tk = Some cb"
  shows "Inv {} (s\<lparr>isPending := (isPending s)(tk \<mapsto> True),
                   log := log s @ [Call tk (pendingPayload s)]\<rparr>)"
    and "opens (s\<lparr>isPending := (isPending s)(tk \<mapsto> True),
                   log := log s @ [Call tk (pendingPayload s)]\<rparr>) = insert tk (opens s)"
    and "tk \<notin> set (callToks (log s))"
proof -
  let ?c = "s\<lparr>isPending := (isPending s)(tk \<mapsto> True),
               log := log s @ [Call tk (pendingPayload s)]\<rparr>"
  let ?cs = "callToks (log s)" and ?rs = "retToks (log s)"
  have l: "linked s" using i by (simp add: Inv_def)
  show n: "tk \<notin> set ?cs" using l p unfolding linked_def by blast
  have nr: "tk \<notin> set ?rs" using l n unfolding linked_def by blast
  show o: "opens ?c = insert tk (opens s)" using nr by (auto simp: opens_def)
  have nh: "\<not> truthy (isHandled s) tk" using l p unfolding linked_def consistent_def by blast
  have lc: "linked ?c"
    using l n nh unfolding linked_def consistent_def o by (auto simp: opens_def)
  have nc: "nocatching ?c" using i by (simp add: Inv_def)
  have e: "edge_ok {} ?c a b" if w: "(a, b) \<in> waits (log s)" for a b
  proof -
    from i w have ok: "edge_ok {tk} s a b" unfolding Inv_def by blast
    then have a: "a \<in> set ?cs" by (simp add: edge_ok_def)
    then have pa: "pos (?cs @ [tk]) a = pos ?cs a" by (rule pos_append_in)
    have ptk: "pos (?cs @ [tk]) tk = length ?cs" using n by (simp add: pos_append_notin)
    show ?thesis
    proof (cases "a \<in> set ?rs")
      case True
      with ok have "(b \<in> set ?rs \<and> pos ?rs b < pos ?rs a) \<or> (b \<notin> set ?cs \<and> truthy (isPending s) b)"
        by (simp add: edge_ok_def)
      then show ?thesis using True a p unfolding edge_ok_def by auto
    next
      case False
      with ok consider "b \<in> set ?rs" | "b \<notin> set ?cs \<and> truthy (isPending s) b"
        | "b \<in> opens s \<and> pos ?cs a < pos ?cs b" | "b = tk"
        by (auto simp: edge_ok_def)
      then show ?thesis
      proof cases
        case 1
        then show ?thesis using False a unfolding edge_ok_def by auto
      next
        case 2
        then show ?thesis using False a p unfolding edge_ok_def by auto
      next
        case 3
        then have "b \<in> set ?cs" by (simp add: opens_def)
        then have "pos (?cs @ [tk]) b = pos ?cs b" by (rule pos_append_in)
        then show ?thesis using 3 False a pa unfolding edge_ok_def o by auto
      next
        case 4
        have "pos ?cs a < length ?cs" using a by (rule pos_less)
        then show ?thesis using 4 False a pa ptk nr unfolding edge_ok_def o by auto
      qed
    qed
  qed
  show "Inv {} ?c" using lc nc e unfolding Inv_def by auto
qed


lemma Inv_ret:
  assumes i: "Inv {} s2" and o: "opens s2 = insert tk O'" and n: "tk \<notin> O'"
    and cs: "callToks (log s2) = cs0 @ tk # cs1" and sub: "O' \<subseteq> set cs0"
  shows "Inv {} (s2\<lparr>isHandled := (isHandled s2)(tk \<mapsto> True), log := log s2 @ [Ret tk]\<rparr>)"
    and "opens (s2\<lparr>isHandled := (isHandled s2)(tk \<mapsto> True), log := log s2 @ [Ret tk]\<rparr>) = O'"
proof -
  let ?r = "s2\<lparr>isHandled := (isHandled s2)(tk \<mapsto> True), log := log s2 @ [Ret tk]\<rparr>"
  let ?cs = "callToks (log s2)" and ?rs = "retToks (log s2)"
  have l: "linked s2" using i by (simp add: Inv_def)
  have tko: "tk \<in> opens s2" using o by simp
  then have tkc: "tk \<in> set ?cs" and tkr: "tk \<notin> set ?rs" by (simp_all add: opens_def)
  have d: "distinct ?cs" using l by (simp add: linked_def)
  then have tk0: "tk \<notin> set cs0" using cs by simp
  have ptk: "pos ?cs tk = length cs0" using tk0 cs by (simp add: pos_append_notin)
  have pO: "pos ?cs b < length cs0" if "b \<in> O'" for b
  proof -
    from that sub have "b \<in> set cs0" by blast
    then show ?thesis using cs pos_append_in[of b cs0 "tk # cs1"] pos_less[of b cs0] by simp
  qed
  have prs: "pos (?rs @ [tk]) x = pos ?rs x" if "x \<in> set ?rs" for x
    using that by (rule pos_append_in)
  have prtk: "pos (?rs @ [tk]) tk = length ?rs" using tkr by (simp add: pos_append_notin)
  show o': "opens ?r = O'" using o n tkr unfolding opens_def by auto
  have cr: "callToks (log ?r) = ?cs" "retToks (log ?r) = ?rs @ [tk]" by simp_all
  have co: "consistent ?r"
    unfolding consistent_def
  proof (intro allI impI)
    fix k assume h: "truthy (isHandled ?r) k"
    show "truthy (isPending ?r) k"
    proof (cases "k = tk")
      case True
      then show ?thesis using l tkc by (simp add: linked_def)
    next
      case False
      then have "truthy (isHandled s2) k" using h by simp
      then show ?thesis using l by (simp add: linked_def consistent_def)
    qed
  qed
  have nc: "nocatching ?r" using i by (simp add: Inv_def)
  have lr: "linked ?r"
    unfolding linked_def o' cr
  proof (intro conjI ballI impI)
    show "consistent ?r" by (rule co)
    show "distinct ?cs" by (rule d)
    show "truthy (isPending ?r) k" if "k \<in> set ?cs" for k
      using l that by (simp add: linked_def)
    show "set (?rs @ [tk]) \<subseteq> set ?cs" using l tkc by (simp add: linked_def)
    show "truthy (isHandled ?r) k" if "k \<in> set (?rs @ [tk])" for k
      using l that by (auto simp: linked_def)
    show "\<not> truthy (isHandled ?r) k" if "k \<in> O'" for k
    proof -
      from that n have "k \<noteq> tk" by blast
      moreover from that o have "k \<in> opens s2" by simp
      ultimately show ?thesis using l by (simp add: linked_def)
    qed
  qed
  have e: "edge_ok {} ?r a b" if w: "(a, b) \<in> waits (log s2)" for a b
  proof -
    from i w have ok: "edge_ok {} s2 a b" unfolding Inv_def by blast
    then have a: "a \<in> set ?cs" by (simp add: edge_ok_def)
    show ?thesis
    proof (cases "a \<in> set ?rs")
      case True
      with ok have c: "(b \<in> set ?rs \<and> pos ?rs b < pos ?rs a) \<or> (b \<notin> set ?cs \<and> truthy (isPending s2) b)"
        by (simp add: edge_ok_def)
      then show ?thesis
      proof
        assume "b \<in> set ?rs \<and> pos ?rs b < pos ?rs a"
        then show ?thesis using True a prs[of a] prs[of b] unfolding edge_ok_def cr by simp
      next
        assume "b \<notin> set ?cs \<and> truthy (isPending s2) b"
        then show ?thesis using True a unfolding edge_ok_def cr by simp
      qed
    next
      case False
      with ok consider (1) "b \<in> set ?rs" | (2) "b \<notin> set ?cs \<and> truthy (isPending s2) b"
        | (3) "b \<in> opens s2 \<and> pos ?cs a < pos ?cs b"
        by (auto simp: edge_ok_def)
      then show ?thesis
      proof cases
        case 1
        show ?thesis
        proof (cases "a = tk")
          case True
          have "pos ?rs b < length ?rs" using 1 by (rule pos_less)
          then show ?thesis using True 1 a prs[OF 1] prtk unfolding edge_ok_def cr by simp
        next
          case ne: False
          then show ?thesis using 1 False a unfolding edge_ok_def cr by simp
        qed
      next
        case 2
        then show ?thesis using a unfolding edge_ok_def cr by simp
      next
        case 3
        show ?thesis
        proof (cases "a = tk")
          case True
          with 3 ptk have lt: "length cs0 < pos ?cs b" by simp
          then have "b \<noteq> tk" using ptk by auto
          with 3 o have "b \<in> O'" by auto
          from pO[OF this] lt show ?thesis by simp
        next
          case ne: False
          show ?thesis
          proof (cases "b = tk")
            case True
            then show ?thesis using ne False a unfolding edge_ok_def cr by simp
          next
            case nb: False
            with 3 o have "b \<in> O'" by auto
            then show ?thesis using 3 ne False a unfolding edge_ok_def cr o' by simp
          qed
        qed
      qed
    qed
  qed
  show "Inv {} ?r" using lr nc e unfolding Inv_def by auto
qed


lemma post_Returned: "post s Returned s' = (Inv {} s' \<and> opens s' = opens s)"
  by (simp add: post_def)

lemma post_Threw_indep: "post s (Threw e) s' \<Longrightarrow> post t (Threw e) s'"
  by (simp add: post_def)

lemma post_Exhausted [simp]: "post s Exhausted s'"
  by (simp add: post_def)

lemma post_trans: "post s Returned s1 \<Longrightarrow> post s1 r s2 \<Longrightarrow> post s r s2"
  by (cases r) (auto simp: post_def)

lemma post_cert:
  "cert (log s') \<Longrightarrow> (\<And>x. e \<noteq> CircularDependencyError x) \<Longrightarrow> post s (Threw e) s'"
  by (cases e) (auto simp: post_def)

lemma post_circular:
  assumes i: "Inv {} s" and o: "self \<in> opens s"
    and p: "truthy (isPending s) tk" and h: "\<not> truthy (isHandled s) tk"
  shows "post s (Threw (CircularDependencyError tk)) (s\<lparr>log := log s @ [Wait self tk]\<rparr>)"
proof -
  have l: "linked s" using i by (simp add: Inv_def)
  have "cert (log s)" using i by (rule Inv_cert)
  moreover have "self \<in> set (callToks (log s))" using o by (simp add: opens_def)
  moreover have "\<forall>k \<in> set (retToks (log s)). truthy (isHandled s) k"
    using l by (simp add: linked_def)
  ultimately show ?thesis using p h by (simp add: post_def)
qed

lemma post_eval:
  fixes s :: "'p dispatcher"
  shows "isDispatching s \<Longrightarrow> \<not> truthy (isPending s) tk \<Longrightarrow> Inv {tk} s \<Longrightarrow>
           post s (fst (invokeCallback n tk s)) (snd (invokeCallback n tk s))"
    and "isDispatching s \<Longrightarrow> Inv {} s \<Longrightarrow> self \<in> opens s \<Longrightarrow>
         list_all (nocatch (pendingPayload s)) acts \<Longrightarrow>
           post s (fst (runBody n self acts s)) (snd (runBody n self acts s))"
    and "isDispatching s \<Longrightarrow> Inv {} s \<Longrightarrow> self \<in> opens s \<Longrightarrow>
           post s (fst (waitFor n self ids s)) (snd (waitFor n self ids s))"
    and "isDispatching s \<Longrightarrow> Inv {} s \<Longrightarrow> self \<in> opens s \<Longrightarrow>
           post s (fst (waitFor_loop n self ids s)) (snd (waitFor_loop n self ids s))"
    and "isDispatching s \<Longrightarrow> Inv {} s \<Longrightarrow>
           post s (fst (dispatch_n n s p)) (snd (dispatch_n n s p))"
    and "isDispatching s \<Longrightarrow> Inv {} s \<Longrightarrow>
           post s (fst (dispatch_loop n ids s)) (snd (dispatch_loop n ids s))"
proof (induction n tk s and n self acts s and n self ids s and n self ids s and n s p and n ids s
       rule: eval_induct)
  case (1 tk s)
  then show ?case by simp
next
  case (2 n tk s)
  let ?s1 = "s\<lparr>isPending := (isPending s)(tk \<mapsto> True)\<rparr>"
  show ?case
  proof (cases "map_of (callbacks s) tk")
    case None
    have "cert (log ?s1)" using Inv_cert[OF 2(4)] by simp
    then have "post s (Threw (NotCallableError tk)) ?s1" by (rule post_cert) simp
    then show ?thesis using None by simp
  next
    case (Some cb)
    let ?c = "s\<lparr>isPending := (isPending s)(tk \<mapsto> True),
                 log := log s @ [Call tk (pendingPayload s)]\<rparr>"
    note ic = Inv_call[OF 2(4) 2(3) Some]
    have dc: "isDispatching ?c" using 2(2) by simp
    obtain r s3 where r: "runBody n tk (cb (pendingPayload s)) ?c = (r, s3)"
      by (cases "runBody n tk (cb (pendingPayload s)) ?c") auto
    have nb: "list_all (nocatch (pendingPayload s)) (cb (pendingPayload s))"
      using 2(4) Some by (simp add: Inv_def nocatching_body)
    have ih: "post ?c r s3"
      using 2(1)[of ?s1 cb] Some dc ic(1,2) nb r by simp
    show ?thesis
    proof (cases r)
      case Returned
      let ?r = "s3\<lparr>isHandled := (isHandled s3)(tk \<mapsto> True), log := log s3 @ [Ret tk]\<rparr>"
      from ih Returned have i3: "Inv {} s3" and o3: "opens s3 = insert tk (opens s)"
        using ic(2) by (simp_all add: post_Returned)
      have "once ?c s3" using once_eval(2)[OF dc, of n tk "cb (pendingPayload s)"] r by simp
      then obtain l where "log s3 = log ?c @ l" unfolding once_def by blast
      then have cs: "callToks (log s3) = callToks (log s) @ tk # callToks l" by simp
      have n: "tk \<notin> opens s" using ic(3) by (simp add: opens_def)
      have sub: "opens s \<subseteq> set (callToks (log s))" by (auto simp: opens_def)
      from Inv_ret[OF i3 o3 n cs sub] have "post s Returned ?r" by (simp add: post_Returned)
      then show ?thesis using Some r Returned by simp
    next
      case (Threw e)
      then have "post s (Threw e) s3" using ih post_Threw_indep by blast
      then show ?thesis using Some r Threw by simp
    next
      case Exhausted
      then show ?thesis using Some r by simp
    qed
  qed
next
  case (3 n self s)
  then show ?case by (simp add: post_Returned)
next
  case (4 n self ids rest s)
  obtain r s' where r: "waitFor n self ids s = (r, s')" by (cases "waitFor n self ids s") auto
  have a: "post s r s'" using 4(1) 4(3,4,5) r by simp
  show ?case
  proof (cases r)
    case Returned
    have d': "isDispatching s'" using stays_dispatching(3)[OF 4(3), of n self ids] r 4(3) by simp
    from a Returned have i': "Inv {} s'" and o': "self \<in> opens s'"
      using 4(5) by (simp_all add: post_Returned)
    have "pendingPayload s' = pendingPayload s"
      using within_eval(3)[OF 4(3), of n self ids] r by (simp add: within_def)
    then have nr: "list_all (nocatch (pendingPayload s')) rest" using 4(6) by simp
    have "post s' (fst (runBody n self rest s')) (snd (runBody n self rest s'))"
      using 4(2)[of r s'] r Returned d' i' o' nr by simp
    then have "post s (fst (runBody n self rest s')) (snd (runBody n self rest s'))"
      using a Returned post_trans by blast
    then show ?thesis using r Returned by simp
  qed (use r a in simp_all)
next
  case (5 n self payload rest s)
  have "post s (Threw ReentrantDispatchError) s"
    by (rule post_cert) (simp_all add: Inv_cert[OF 5(4)])
  then show ?case using 5(3) by simp
next
  case (6 n self callback rest s)
  let ?s' = "snd (register s callback)"
  have nb: "list_all (nocatch (pendingPayload s)) (callback (pendingPayload s))"
    and nr: "list_all (nocatch (pendingPayload ?s')) rest"
    using 6(5) by simp_all
  have i': "Inv {} ?s'" by (rule Inv_register[where cb = callback, OF 6(3) nb])
  have a: "post s Returned ?s'" using i' by (simp add: post_Returned)
  have "post ?s' (fst (runBody n self rest ?s')) (snd (runBody n self rest ?s'))"
    using 6(1) 6(2) i' 6(4) nr by simp
  then have "post s (fst (runBody n self rest ?s')) (snd (runBody n self rest ?s'))"
    using a post_trans by blast
  then show ?case by simp
next
  case (7 n self tk rest s)
  show ?case
  proof (cases "hasCallback s tk")
    case False
    have "post s (Threw (InvalidTokenError tk)) s"
      by (rule post_cert) (simp_all add: Inv_cert[OF 7(3)])
    then show ?thesis using False by (simp add: unregister_def)
  next
    case True
    let ?s' = "s\<lparr>callbacks := remove tk (callbacks s)\<rparr>"
    have u: "unregister s tk = (Returned, ?s')" using True by (simp add: unregister_def)
    have a: "post s Returned ?s'" using Inv_unregister[OF 7(3)] by (simp add: post_Returned)
    have "post ?s' (fst (runBody n self rest ?s')) (snd (runBody n self rest ?s'))"
      using 7(1)[of Returned ?s'] u 7(2) Inv_unregister[OF 7(3)] 7(4) 7(5) by simp
    then have "post s (fst (runBody n self rest ?s')) (snd (runBody n self rest ?s'))"
      using a post_trans by blast
    then show ?thesis using u by simp
  qed
next
  case (8 n self msg rest s)
  have "post s (Threw (ApplicationError msg)) s"
    by (rule post_cert) (simp_all add: Inv_cert[OF 8(2)])
  then show ?case by simp
next
  case (9 n self body handler rest s)
  then show ?case by simp
next
  case (10 n self ids s)
  then show ?case by simp
next
  case (11 n self s)
  then show ?case by (simp add: post_Returned)
next
  case (12 n self tk ids s)
  let ?s0 = "s\<lparr>log := log s @ [Wait self tk]\<rparr>"
  have d0: "isDispatching ?s0" using 12 by simp
  have o0: "self \<in> opens ?s0" using 12(6) by simp
  show ?case
  proof (cases "truthy (isPending s) tk")
    case True
    show ?thesis
    proof (cases "truthy (isHandled s) tk")
      case False
      then show ?thesis using True post_circular[OF 12(5,6) True False] by simp
    next
      case h: True
      have i0: "Inv {} ?s0" by (rule Inv_wait_skip[OF 12(5,6) True h])
      have "post ?s0 (fst (waitFor_loop n self ids ?s0)) (snd (waitFor_loop n self ids ?s0))"
        using 12(1)[of ?s0] True h d0 i0 o0 by simp
      moreover have "post s Returned ?s0" using i0 by (simp add: post_Returned)
      ultimately have "post s (fst (waitFor_loop n self ids ?s0)) (snd (waitFor_loop n self ids ?s0))"
        using post_trans by blast
      then show ?thesis using True h by simp
    qed
  next
    case np: False
    show ?thesis
    proof (cases "hasCallback s tk")
      case False
      have "post s (Threw (InvalidTokenError tk)) ?s0"
        by (rule post_cert) (simp_all add: cert_wait_invalid[OF 12(5,6) np])
      then show ?thesis using False np by (simp add: hasCallback_def keys_def)
    next
      case True
      then have hc: "hasCallback ?s0 tk" by (simp add: hasCallback_def keys_def)
      have np0: "\<not> truthy (isPending ?s0) tk" using np by simp
      have i0: "Inv {tk} ?s0" by (rule Inv_wait_invoke[OF 12(5,6) np])
      obtain r s' where r: "invokeCallback n tk ?s0 = (r, s')" by (cases "invokeCallback n tk ?s0") auto
      have a: "post ?s0 r s'" using 12(2)[of ?s0] np hc d0 i0 r by simp
      show ?thesis
      proof (cases r)
        case Returned
        have d': "isDispatching s'" using stays_dispatching(1)[OF d0 np0, of n] r by simp
        from a Returned have i': "Inv {} s'" and o': "opens s' = opens s"
          by (simp_all add: post_Returned)
        have "post s' (fst (waitFor_loop n self ids s')) (snd (waitFor_loop n self ids s'))"
          using 12(3)[of ?s0 r s'] np hc r Returned d' i' o' 12(6) by simp
        moreover have "post s Returned s'" using i' o' by (simp add: post_Returned)
        ultimately have "post s (fst (waitFor_loop n self ids s')) (snd (waitFor_loop n self ids s'))"
          using post_trans by blast
        then show ?thesis using np hc r Returned by simp
      next
        case (Threw e)
        then have "post s (Threw e) s'" using a post_Threw_indep by blast
        then show ?thesis using np hc r Threw by simp
      next
        case Exhausted
        then show ?thesis using np hc r by simp
      qed
    qed
  qed
next
  case (13 n s payload)
  have "post s (Threw ReentrantDispatchError) s"
    by (rule post_cert) (simp_all add: Inv_cert[OF 13(3)])
  then show ?case using 13(2) by simp
next
  case (14 n s)
  then show ?case by (simp add: post_Returned)
next
  case (15 n tk ids s)
  show ?case
  proof (cases "tk \<notin> set (keys s) \<or> truthy (isPending s) tk")
    case True
    then show ?thesis using 15 by (cases "tk \<notin> set (keys s)") simp_all
  next
    case False
    then have np: "\<not> truthy (isPending s) tk" by simp
    obtain r s' where r: "invokeCallback n tk s = (r, s')" by (cases "invokeCallback n tk s") auto
    have a: "post s r s'" using 15(3) False 15(5) Inv_mono[OF 15(6), of "{tk}"] r by simp
    show ?thesis
    proof (cases r)
      case Returned
      have d': "isDispatching s'" using stays_dispatching(1)[OF 15(5) np, of n] r by simp
      from a Returned have i': "Inv {} s'" by (simp add: post_Returned)
      have "post s' (fst (dispatch_loop n ids s')) (snd (dispatch_loop n ids s'))"
        using 15(4)[of r s'] False r Returned d' i' by simp
      then have "post s (fst (dispatch_loop n ids s')) (snd (dispatch_loop n ids s'))"
        using a Returned post_trans by blast
      then show ?thesis using False r Returned by simp
    qed (use False r a in simp_all)
  qed
qed


lemma Inv_start:
  assumes "consistent s"
    and "list_all (\<lambda>kv. list_all (nocatch (Some p)) (snd kv (Some p))) (callbacks s)"
  shows "Inv {} (startDispatching s p)"
proof -
  have "consistent (startDispatching s p)"
    using assms(1) unfolding consistent_def
    by (auto simp: truthy_def startDispatching_isPending startDispatching_isHandled)
  moreover have "nocatching (startDispatching s p)" using assms(2) by (simp add: nocatching_def)
  ultimately show ?thesis unfolding Inv_def linked_def opens_def by simp
qed

text \<open>
  Claim C2, as stated, at \<open>catch_example\<close>: the body of \<^verbatim>\<open>ID_1\<close> waits for \<^verbatim>\<open>ID_2\<close>,
  whose body waits for \<^verbatim>\<open>ID_1\<close> inside a \<^verbatim>\<open>try\<close> block.  The \<^verbatim>\<open>waitFor\<close> call of
  \<^verbatim>\<open>ID_2\<close> throws, \<^verbatim>\<open>ID_2\<close> catches what it throws, and the dispatch returns normally.
\<close>

theorem caught_cycle_counterexample:
  "map (\<lambda>kv. snd kv (Some ())) (callbacks catch_example)
     = [[WaitFor [''ID_2'']], [TryCatch [WaitFor [''ID_1'']] []]]
   \<and> fst (dispatch catch_example ()) = Returned
   \<and> log (snd (dispatch catch_example ()))
       = [Call ''ID_1'' (Some ()), Wait ''ID_1'' ''ID_2'', Call ''ID_2'' (Some ()),
          Wait ''ID_2'' ''ID_1'', Ret ''ID_2'', Ret ''ID_1'']
   \<and> (''ID_1'', ''ID_2'') \<in> waits (log (snd (dispatch catch_example ())))
   \<and> (''ID_2'', ''ID_1'') \<in> waits (log (snd (dispatch catch_example ())))"
proof -
  have l: "log (snd (dispatch catch_example ()))
       = [Call ''ID_1'' (Some ()), Wait ''ID_1'' ''ID_2'', Call ''ID_2'' (Some ()),
          Wait ''ID_2'' ''ID_1'', Ret ''ID_2'', Ret ''ID_1'']"
    by (simp add: catch_example_def eval_defs)
  have f: "fst (dispatch catch_example ()) = Returned"
    by (simp add: catch_example_def eval_defs)
  have b: "map (\<lambda>kv. snd kv (Some ())) (callbacks catch_example)
     = [[WaitFor [''ID_2'']], [TryCatch [WaitFor [''ID_1'']] []]]"
    by (simp add: catch_example_def eval_defs)
  show ?thesis unfolding l using f b by (simp add: waits_def)
qed

text \<open>
  Claim C2, amended.  Take a dispatch, from a state in which every handled token is
  pending, to callbacks none of which contains a \<^verbatim>\<open>try\<close> block or registers a callback
  that does.  If in this dispatch the body of \<open>a\<close> reaches a \<^verbatim>\<open>waitFor\<close> on \<open>b\<close> and
  the body of \<open>b\<close> reaches a \<^verbatim>\<open>waitFor\<close> on \<open>a\<close>, each directly or through a chain of
  such waits, the dispatch fails with \<open>CircularDependencyError x\<close>, where \<open>x\<close> is a
  token whose callback has been called and has not returned (it is pending and not
  handled), and \<open>x\<close> lies on a cycle of the waits.
\<close>

theorem circular_wait_detected:
  assumes nd: "\<not> isDispatching s"
    and co: "consistent s"
    and nc: "list_all (\<lambda>kv. list_all (nocatch (Some p)) (snd kv (Some p))) (callbacks s)"
    and ab: "(a, b) \<in> (waits (log (snd (dispatch s p))))\<^sup>+"
    and ba: "(b, a) \<in> (waits (log (snd (dispatch s p))))\<^sup>+"
  shows "\<exists>x. fst (dispatch s p) = Threw (CircularDependencyError x)
           \<and> x \<in> set (callToks (log (snd (dispatch s p))))
           \<and> x \<notin> set (retToks (log (snd (dispatch s p))))
           \<and> truthy (isPending (snd (dispatch s p))) x
           \<and> \<not> truthy (isHandled (snd (dispatch s p))) x
           \<and> (x, x) \<in> (waits (log (snd (dispatch s p))))\<^sup>+"
proof -
  let ?s1 = "startDispatching s p"
  let ?n = "Suc (pot ?s1)"
  obtain r s2 where l: "dispatch_loop ?n (keys s) ?s1 = (r, s2)"
    by (cases "dispatch_loop ?n (keys s) ?s1") auto
  have res: "dispatch s p = (r, stopDispatching s2)"
    unfolding dispatch_def dispatch_n_start[OF nd] using l by simp
  have po: "post ?s1 r s2" using post_eval(6)[OF _ Inv_start[OF co nc], of ?n "keys s"] l by simp
  have ne: "r \<noteq> Exhausted" using dispatch_not_Exhausted[of s p] res by simp
  let ?W = "waits (log s2)"
  have cyc: "(a, a) \<in> ?W\<^sup>+" using ab ba res by (metis snd_conv stopDispatching_fields(7) trancl_trans)
  show ?thesis
  proof (cases r)
    case Returned
    then have "cert (log s2)" using po Inv_cert by (auto simp: post_Returned)
    then show ?thesis using cyc cert_acyclic by blast
  next
    case Exhausted
    then show ?thesis using ne by simp
  next
    case (Threw e)
    show ?thesis
    proof (cases "\<exists>x. e = CircularDependencyError x")
      case False
      then have "cert (log s2)" using po Threw by (cases e) (auto simp: post_def)
      then show ?thesis using cyc cert_acyclic by blast
    next
      case True
      then obtain x where e: "e = CircularDependencyError x" by blast
      from po Threw e obtain y l0 where
        px: "truthy (isPending s2) x" and hx: "\<not> truthy (isHandled s2) x"
        and lg: "log s2 = l0 @ [Wait y x]" and c0: "cert l0" and y: "y \<in> set (callToks l0)"
        and rh: "\<forall>k \<in> set (retToks l0). truthy (isHandled s2) k"
        by (auto simp: post_def)
      have W: "?W = insert (y, x) (waits l0)" using lg by simp
      from cyc have "(a, a) \<in> (waits l0)\<^sup>+ \<or> ((a, y) \<in> (waits l0)\<^sup>* \<and> (x, a) \<in> (waits l0)\<^sup>*)"
        unfolding W trancl_insert by blast
      then have xy: "(x, y) \<in> (waits l0)\<^sup>*" using cert_acyclic[OF c0] by auto
      have xc: "x \<in> set (callToks l0)"
      proof (cases "x = y")
        case True
        then show ?thesis using y by simp
      next
        case False
        with xy have "(x, y) \<in> (waits l0)\<^sup>+" by (simp add: rtrancl_eq_or_trancl)
        then show ?thesis using cert_from[OF c0] by blast
      qed
      have xr: "x \<notin> set (retToks l0)" using rh hx by blast
      have "(x, y) \<in> ?W\<^sup>*" using xy unfolding W by (meson rtrancl_mono subsetD subset_insertI)
      moreover have "(y, x) \<in> ?W" unfolding W by simp
      ultimately have xx: "(x, x) \<in> ?W\<^sup>+" by (rule rtrancl_into_trancl1)
      show ?thesis using res Threw e xc xr px hx xx lg by (intro exI[of _ x]) simp
    qed
  qed
qed


text \<open>Claim C2, amended, at \<open>cycle_example\<close>.\<close>

theorem circular_wait_detected_witness:
  "\<not> isDispatching cycle_example \<and> consistent cycle_example
   \<and> list_all (\<lambda>kv. list_all (nocatch (Some ())) (snd kv (Some ()))) (callbacks cycle_example)
   \<and> (''ID_1'', ''ID_2'') \<in> (waits (log (snd (dispatch cycle_example ()))))\<^sup>+
   \<and> (''ID_2'', ''ID_1'') \<in> (waits (log (snd (dispatch cycle_example ()))))\<^sup>+
   \<and> fst (dispatch cycle_example ()) = Threw (CircularDependencyError ''ID_1'')
   \<and> ''ID_1'' \<in> set (callToks (log (snd (dispatch cycle_example ()))))
   \<and> ''ID_1'' \<notin> set (retToks (log (snd (dispatch cycle_example ()))))
   \<and> truthy (isPending (snd (dispatch cycle_example ()))) ''ID_1''
   \<and> \<not> truthy (isHandled (snd (dispatch cycle_example ()))) ''ID_1''"
proof -
  have a: "\<not> isDispatching cycle_example" by (simp add: cycle_example_def eval_defs)
  have co: "consistent cycle_example"
    by (simp add: consistent_def cycle_example_def eval_defs)
  have nc: "list_all (\<lambda>kv. list_all (nocatch (Some ())) (snd kv (Some ()))) (callbacks cycle_example)"
    by (simp add: cycle_example_def eval_defs)
  have l: "log (snd (dispatch cycle_example ())) =
       [Call ''ID_1'' (Some ()), Wait ''ID_1'' ''ID_2'', Call ''ID_2'' (Some ()),
        Wait ''ID_2'' ''ID_1'']"
    by (simp add: cycle_example_def eval_defs)
  have f: "fst (dispatch cycle_example ()) = Threw (CircularDependencyError ''ID_1'')"
    by (simp add: cycle_example_def eval_defs)
  have "(''ID_1'', ''ID_2'') \<in> waits (log (snd (dispatch cycle_example ())))"
    unfolding l by (simp add: waits_def)
  then have ab: "(''ID_1'', ''ID_2'') \<in> (waits (log (snd (dispatch cycle_example ()))))\<^sup>+"
    by (rule r_into_trancl)
  have "(''ID_2'', ''ID_1'') \<in> waits (log (snd (dispatch cycle_example ())))"
    unfolding l by (simp add: waits_def)
  then have ba: "(''ID_2'', ''ID_1'') \<in> (waits (log (snd (dispatch cycle_example ()))))\<^sup>+"
    by (rule r_into_trancl)
  from circular_wait_detected[OF a co nc ab ba] obtain x where
    x: "fst (dispatch cycle_example ()) = Threw (CircularDependencyError x)"
       "x \<in> set (callToks (log (snd (dispatch cycle_example ()))))"
       "x \<notin> set (retToks (log (snd (dispatch cycle_example ()))))"
       "truthy (isPending (snd (dispatch cycle_example ()))) x"
       "\<not> truthy (isHandled (snd (dispatch cycle_example ()))) x"
    by blast
  from x(1) f have "x = ''ID_1''" by simp
  with x a co nc ab ba f show ?thesis by blast
qed


section \<open>States that a new dispatcher can reach\<close>

lemma keeps_refl: "keeps s s"
  by (simp add: keeps_def)

lemma keeps_trans: "keeps a b \<Longrightarrow> keeps b c \<Longrightarrow> keeps a c"
  by (simp add: keeps_def)

lemma keeps_call:
  "keeps s (s\<lparr>isPending := (isPending s)(tk \<mapsto> True), log := l\<rparr>)"
  by (simp add: keeps_def consistent_def)

lemma keeps_pending: "keeps s (s\<lparr>isPending := (isPending s)(tk \<mapsto> True)\<rparr>)"
  by (simp add: keeps_def consistent_def)

lemma keeps_ret:
  assumes "keeps (s\<lparr>isPending := (isPending s)(tk \<mapsto> True), log := l\<rparr>) s2"
  shows "keeps s (s2\<lparr>isHandled := (isHandled s2)(tk \<mapsto> True), log := l'\<rparr>)"
proof -
  let ?c = "s\<lparr>isPending := (isPending s)(tk \<mapsto> True), log := l\<rparr>"
  have p: "\<forall>k. truthy (isPending ?c) k \<longrightarrow> truthy (isPending s2) k"
    and c: "consistent ?c \<longrightarrow> consistent s2"
    using assms by (simp_all add: keeps_def)
  have tk: "truthy (isPending s2) tk" using p by simp
  have "consistent s \<longrightarrow> consistent ?c" by (simp add: consistent_def)
  then have "consistent s \<longrightarrow> consistent s2" using c by blast
  then have "consistent s \<longrightarrow>
      consistent (s2\<lparr>isHandled := (isHandled s2)(tk \<mapsto> True), log := l'\<rparr>)"
    using tk by (simp add: consistent_def)
  moreover have "\<forall>k. truthy (isPending s) k \<longrightarrow> truthy (isPending s2) k" using p by simp
  ultimately show ?thesis by (simp add: keeps_def)
qed

lemma keeps_same:
  "isPending b = isPending a \<Longrightarrow> isHandled b = isHandled a \<Longrightarrow> keeps a b"
  by (simp add: keeps_def consistent_def)

lemma keeps_eval:
  "isDispatching s \<Longrightarrow> \<not> truthy (isPending s) tk \<Longrightarrow>
     keeps s (snd (invokeCallback n tk s)) \<and> isDispatching (snd (invokeCallback n tk s))"
  "isDispatching s \<Longrightarrow>
     keeps s (snd (runBody n self acts s)) \<and> isDispatching (snd (runBody n self acts s))"
  "isDispatching s \<Longrightarrow>
     keeps s (snd (waitFor n self ids s)) \<and> isDispatching (snd (waitFor n self ids s))"
  "isDispatching s \<Longrightarrow>
     keeps s (snd (waitFor_loop n self ids s)) \<and> isDispatching (snd (waitFor_loop n self ids s))"
  "isDispatching s \<Longrightarrow>
     keeps s (snd (dispatch_n n s p)) \<and> isDispatching (snd (dispatch_n n s p))"
  "isDispatching s \<Longrightarrow>
     keeps s (snd (dispatch_loop n ids s)) \<and> isDispatching (snd (dispatch_loop n ids s))"
  by (rule eval_frame[where Q = keeps];
      (assumption | rule keeps_refl | (erule (1) keeps_trans) | rule keeps_call
        | (erule keeps_ret) | rule keeps_pending | (rule keeps_same; simp; fail)))+

lemma consistent_start: "consistent s \<Longrightarrow> consistent (startDispatching s p)"
  unfolding consistent_def
  by (auto simp: truthy_def startDispatching_isPending startDispatching_isHandled)

lemma consistent_dispatch: "consistent s \<Longrightarrow> consistent (snd (dispatch s p))"
proof (cases "isDispatching s")
  case True
  then show "consistent s \<Longrightarrow> ?thesis" by (simp add: dispatch_def)
next
  case False
  assume c: "consistent s"
  let ?s1 = "startDispatching s p"
  let ?t = "snd (dispatch_loop (Suc (pot ?s1)) (keys ?s1) ?s1)"
  have "keeps ?s1 ?t" using keeps_eval(6)[of ?s1] by simp
  then have "consistent ?t" using consistent_start[OF c] by (simp add: keeps_def)
  then have "consistent (stopDispatching ?t)" by (simp add: consistent_def)
  then show ?thesis unfolding dispatch_def dispatch_n_start[OF False] by simp
qed

text \<open>
  From a new dispatcher, whatever the application and the callbacks do, every token
  that reads as handled reads as pending.
\<close>

lemma consistent_exec: "consistent s \<Longrightarrow> consistent (snd (exec cs s))"
proof (induction cs arbitrary: s)
  case Nil
  then show ?case by simp
next
  case (Cons c cs)
  show ?case
  proof (cases c)
    case (CallRegister cb)
    have "consistent (snd (register s cb))" using Cons.prems by (simp add: consistent_def)
    from Cons.IH[OF this] show ?thesis unfolding CallRegister exec_register .
  next
    case (CallUnregister t)
    have "consistent (snd (unregister s t))" using Cons.prems
      by (simp add: consistent_def unregister_def)
    from Cons.IH[OF this] show ?thesis unfolding CallUnregister by simp
  next
    case (CallDispatch p)
    from Cons.IH[OF consistent_dispatch[OF Cons.prems]] show ?thesis
      unfolding CallDispatch by simp
  qed
qed

lemma consistent_new: "consistent (snd (exec cs new))"
  by (rule consistent_exec) (simp add: consistent_def new_def truthy_def)

lemma keys_put: "fst ` set (put k v kvs) = insert k (fst ` set kvs)"
proof (induction kvs)
  case Nil
  show ?case by simp
next
  case (Cons kv kvs)
  obtain a b where kv: "kv = (a, b)" by (cases kv)
  show ?case using Cons.IH by (cases "a = k") (simp_all add: kv insert_commute)
qed

lemma distinct_put: "distinct (map fst kvs) \<Longrightarrow> distinct (map fst (put k v kvs))"
  by (induction kvs) (auto simp: keys_put)

lemma grows_refl: "grows s s"
  by (simp add: grows_def)

lemma grows_trans: "grows a b \<Longrightarrow> grows b c \<Longrightarrow> grows a c"
  unfolding grows_def by (meson le_less_trans order_trans)

lemma grows_same:
  "lastID b = lastID a \<Longrightarrow> callbacks b = callbacks a \<Longrightarrow> grows a b"
  by (simp add: grows_def minted_keys_def keys_def)

lemma grows_cong:
  "grows a b \<Longrightarrow> lastID a' = lastID a \<Longrightarrow> callbacks a' = callbacks a \<Longrightarrow>
   lastID b' = lastID b \<Longrightarrow> callbacks b' = callbacks b \<Longrightarrow> grows a' b'"
  by (simp add: grows_def minted_keys_def keys_def)

lemma grows_remove: "grows s (s\<lparr>callbacks := remove tk (callbacks s)\<rparr>)"
  by (auto simp: grows_def minted_keys_def keys_def remove_def distinct_map_filter)

lemma grows_register: "grows s (snd (register s cb))"
  unfolding grows_def
proof (intro conjI impI)
  show "lastID s \<le> lastID (snd (register s cb))" using increment_ge[of "lastID s"] by simp
  assume a: "minted_keys s \<and> lastID (snd (register s cb)) < 2 ^ 53"
  then have inc: "increment (lastID s) = Suc (lastID s)" using increment_below[of "lastID s"] by simp
  have "distinct (map fst (put (mkToken (lastID s)) cb (callbacks s)))"
    using a by (simp add: minted_keys_def keys_def distinct_put)
  moreover have "\<forall>tk \<in> set (map fst (put (mkToken (lastID s)) cb (callbacks s))).
                   \<exists>n<Suc (lastID s). tk = mkToken n"
    using a unfolding minted_keys_def keys_def by (auto simp: keys_put intro: less_SucI)
  ultimately show "minted_keys (snd (register s cb))"
    unfolding minted_keys_def keys_def using inc by simp
qed

lemma grows_eval:
  "isDispatching s \<Longrightarrow> \<not> truthy (isPending s) tk \<Longrightarrow>
     grows s (snd (invokeCallback n tk s)) \<and> isDispatching (snd (invokeCallback n tk s))"
  "isDispatching s \<Longrightarrow>
     grows s (snd (runBody n self acts s)) \<and> isDispatching (snd (runBody n self acts s))"
  "isDispatching s \<Longrightarrow>
     grows s (snd (waitFor n self ids s)) \<and> isDispatching (snd (waitFor n self ids s))"
  "isDispatching s \<Longrightarrow>
     grows s (snd (waitFor_loop n self ids s)) \<and> isDispatching (snd (waitFor_loop n self ids s))"
  "isDispatching s \<Longrightarrow>
     grows s (snd (dispatch_n n s p)) \<and> isDispatching (snd (dispatch_n n s p))"
  "isDispatching s \<Longrightarrow>
     grows s (snd (dispatch_loop n ids s)) \<and> isDispatching (snd (dispatch_loop n ids s))"
  by (rule eval_frame[where Q = grows];
      (assumption | rule grows_refl | (erule (1) grows_trans) | rule grows_register
        | rule grows_remove | (erule grows_cong; simp; fail) | (rule grows_same; simp; fail)))+

lemma grows_dispatch: "grows s (snd (dispatch s p))"
proof (cases "isDispatching s")
  case True
  then show ?thesis by (simp add: dispatch_def grows_refl)
next
  case False
  let ?s1 = "startDispatching s p"
  let ?t = "snd (dispatch_loop (Suc (pot ?s1)) (keys ?s1) ?s1)"
  have a: "grows s ?s1" by (rule grows_same) simp_all
  have b: "grows ?s1 ?t" using grows_eval(6)[of ?s1] by simp
  have c: "grows ?t (stopDispatching ?t)" by (rule grows_same) simp_all
  show ?thesis unfolding dispatch_def dispatch_n_start[OF False]
    using grows_trans[OF grows_trans[OF a b] c] by simp
qed

lemma grows_exec: "grows s (snd (exec cs s))"
proof (induction cs arbitrary: s)
  case Nil
  then show ?case by (simp add: grows_refl)
next
  case (Cons c cs)
  show ?case
  proof (cases c)
    case (CallRegister cb)
    show ?thesis unfolding CallRegister exec_register
      by (rule grows_trans[OF grows_register Cons.IH])
  next
    case (CallUnregister t)
    have "grows s (snd (unregister s t))"
      by (cases "hasCallback s t") (simp_all add: unregister_def grows_refl grows_remove)
    then show ?thesis unfolding CallUnregister exec.simps
      by (rule grows_trans[OF _ Cons.IH])
  next
    case (CallDispatch p)
    show ?thesis unfolding CallDispatch exec.simps
      by (rule grows_trans[OF grows_dispatch Cons.IH])
  qed
qed

text \<open>
  From a new dispatcher, as long as \<^verbatim>\<open>_lastID\<close> is below \<open>2^53\<close>, the keys of the
  registry are pairwise different and no token yet to be minted is registered.
\<close>

lemma reachable_keys:
  assumes "lastID (snd (exec cs (new :: 'p dispatcher))) < 2 ^ 53"
  shows "distinct (keys (snd (exec cs (new :: 'p dispatcher))))
       \<and> (\<forall>n\<ge>lastID (snd (exec cs (new :: 'p dispatcher))).
            mkToken n \<notin> set (keys (snd (exec cs (new :: 'p dispatcher)))))"
proof -
  let ?s = "snd (exec cs (new :: 'p dispatcher))"
  have "minted_keys (new :: 'p dispatcher)" by (simp add: minted_keys_def keys_def new_def)
  then have m: "minted_keys ?s" using grows_exec[of new cs] assms by (simp add: grows_def)
  have "mkToken n \<notin> set (keys ?s)" if "n \<ge> lastID ?s" for n
  proof
    assume "mkToken n \<in> set (keys ?s)"
    with m obtain k where "k < lastID ?s" "mkToken n = mkToken k"
      unfolding minted_keys_def by blast
    with mkToken_inj[of n k] that show False by simp
  qed
  with m show ?thesis by (simp add: minted_keys_def)
qed

end
